theory Spec2Isabelle
  imports Main "HOL-Library.Multiset" "HOL-Library.Product_Lexorder"
    "HOL-Library.List_Lexorder" "HOL-Library.Char_ord"
begin

section \<open>Python values and failures\<close>

text \<open>
  The exceptions the module can raise. A bare \<^verbatim>\<open>except:\<close> of the source catches all
  of them; outside a \<^verbatim>\<open>try\<close> they reach the caller, so a fallible function returns
  \<open>py_error + 'a\<close> with \<open>Inl\<close> for the exception.
\<close>

datatype py_error =
  KeyError | IndexError | ValueError | TypeError | NameError | AttributeError | RecursionError

text \<open>
  \<^verbatim>\<open>xs[i]\<close> on a Python list: an index below zero is taken from the end, and an index
  outside \<open>-len .. len-1\<close> raises IndexError.
\<close>

definition py_getitem :: "'a list \<Rightarrow> int \<Rightarrow> py_error + 'a" where
  "py_getitem xs i =
     (if 0 \<le> i \<and> i < int (length xs) then Inr (xs ! nat i)
      else if i < 0 \<and> - int (length xs) \<le> i then Inr (xs ! nat (int (length xs) + i))
      else Inl IndexError)"

text \<open>\<^verbatim>\<open>xs.index(x)\<close>: the first position of \<open>x\<close>, ValueError when there is none.\<close>

fun py_index :: "'a list \<Rightarrow> 'a \<Rightarrow> py_error + nat" where
  "py_index [] x = Inl ValueError"
| "py_index (y # ys) x =
     (if y = x then Inr 0
      else (case py_index ys x of Inl e \<Rightarrow> Inl e | Inr i \<Rightarrow> Inr (Suc i)))"

text \<open>\<^verbatim>\<open>d[k]\<close> on a dict: KeyError when the key is missing.\<close>

definition py_lookup :: "('k \<rightharpoonup> 'v) \<Rightarrow> 'k \<Rightarrow> py_error + 'v" where
  "py_lookup d k = (case d k of None \<Rightarrow> Inl KeyError | Some v \<Rightarrow> Inr v)"

text \<open>A list comprehension whose body can raise: the first exception ends it.\<close>

fun comprehension :: "('a \<Rightarrow> py_error + 'b) \<Rightarrow> 'a list \<Rightarrow> py_error + 'b list" where
  "comprehension f [] = Inr []"
| "comprehension f (x # xs) =
     (case f x of
        Inl e \<Rightarrow> Inl e
      | Inr y \<Rightarrow> (case comprehension f xs of Inl e \<Rightarrow> Inl e | Inr ys \<Rightarrow> Inr (y # ys)))"

section \<open>EdgeType and GraphSchema\<close>

text \<open>
  \<^verbatim>\<open>EdgeType = namedtuple("EdgeType", "n1 rel n2")\<close>: a tuple, compared and sorted as
  tuples are (field by field, \<open>n1\<close> first), which is the lexicographic order on products.
\<close>

type_synonym ('l, 'r) EdgeType = "'l \<times> 'r \<times> 'l"


definition rel :: "('l, 'r) EdgeType \<Rightarrow> 'r" where
  "rel et = fst (snd et)"

definition n2 :: "('l, 'r) EdgeType \<Rightarrow> 'l" where
  "n2 et = snd (snd et)"

text \<open>
  The fields of a built \<^verbatim>\<open>GraphSchema\<close>. The two type maps stay \<^verbatim>\<open>None\<close> when the
  schema is created with \<^verbatim>\<open>create_type_maps=False\<close>.
\<close>

record ('n, 'l, 'r) GraphSchema =
  node_types :: "'l list"
  edge_types :: "('l, 'r) EdgeType list"
  schema :: "'l \<rightharpoonup> ('l, 'r) EdgeType list"
  node_type_map :: "('n \<rightharpoonup> nat) option"
  edge_type_map :: "('n \<times> 'n \<rightharpoonup> nat) option"

text \<open>
  The lookups print a warning and return \<^verbatim>\<open>None\<close> on any exception; the printed line
  is not part of the returned value and is left out.
\<close>

definition node_key_to_index :: "('n, 'l, 'r) GraphSchema \<Rightarrow> 'l \<Rightarrow> nat option" where
  "node_key_to_index gs key =
     (case py_index (node_types gs) key of Inl _ \<Rightarrow> None | Inr index \<Rightarrow> Some index)"

definition node_index_to_key :: "('n, 'l, 'r) GraphSchema \<Rightarrow> int \<Rightarrow> 'l option" where
  "node_index_to_key gs index =
     (case py_getitem (node_types gs) index of Inl _ \<Rightarrow> None | Inr key \<Rightarrow> Some key)"

definition edge_key_to_index ::
  "('n, 'l, 'r) GraphSchema \<Rightarrow> ('l, 'r) EdgeType \<Rightarrow> nat option" where
  "edge_key_to_index gs key =
     (case py_index (edge_types gs) key of Inl _ \<Rightarrow> None | Inr index \<Rightarrow> Some index)"

definition edge_index_to_key ::
  "('n, 'l, 'r) GraphSchema \<Rightarrow> int \<Rightarrow> ('l, 'r) EdgeType option" where
  "edge_index_to_key gs index =
     (case py_getitem (edge_types gs) index of Inl _ \<Rightarrow> None | Inr key \<Rightarrow> Some key)"

text \<open>
  \<^verbatim>\<open>get_node_type\<close> returns a type index or a type name, depending on the flag.
  With \<^verbatim>\<open>index=False\<close> the source evaluates \<^verbatim>\<open>self.node_types[index]\<close>: the list is
  subscripted by the flag itself, and \<^verbatim>\<open>False\<close> is the integer 0.
\<close>

datatype 'l type_ref = TypeIndex nat | TypeName 'l

definition get_node_type ::
  "('n, 'l, 'r) GraphSchema \<Rightarrow> 'n \<Rightarrow> bool \<Rightarrow> 'l type_ref option" where
  "get_node_type gs node index =
     (case node_type_map gs of
        None \<Rightarrow> None
      | Some m \<Rightarrow>
          (case py_lookup m node of
             Inl _ \<Rightarrow> None
           | Inr nt \<Rightarrow>
               if index then Some (TypeIndex nt)
               else (case py_getitem (node_types gs) (of_bool index) of
                       Inl _ \<Rightarrow> None
                     | Inr key \<Rightarrow> Some (TypeName key))))"

section \<open>Sampling tree\<close>

text \<open>\<^verbatim>\<open>str(n)\<close> for the non-negative integers that \<^verbatim>\<open>enumerate\<close> yields: decimal digits.\<close>

definition digit :: "nat \<Rightarrow> char" where
  "digit d = ''0123456789'' ! d"

function str :: "nat \<Rightarrow> string" where
  "str n = (if n < 10 then [digit n] else str (n div 10) @ [digit (n mod 10)])"
  by pat_completeness auto
termination
  by (relation "measure id") auto

declare str.simps [simp del]

fun join :: "string \<Rightarrow> string list \<Rightarrow> string" where
  "join sep [] = []"
| "join sep [s] = s"
| "join sep (s # t # ss) = s @ sep @ join sep (t # ss)"

text \<open>\<^verbatim>\<open>gen_key(key, *args)\<close> is \<^verbatim>\<open>key + "_".join(map(str, args))\<close>.\<close>

definition gen_key :: "string \<Rightarrow> nat list \<Rightarrow> string" where
  "gen_key key args = key @ join ''_'' (map str args)"

text \<open>
  A node below a root is \<^verbatim>\<open>(unique_id, edge_type, [children])\<close>; a root is
  \<^verbatim>\<open>(unique_id, node_type, [children])\<close>.
\<close>

datatype ('l, 'r) sampling_node =
  SamplingNode string "('l, 'r) EdgeType" "('l, 'r) sampling_node list"

type_synonym ('l, 'r) sampling_root = "string \<times> 'l \<times> ('l, 'r) sampling_node list"

text \<open>
  \<^verbatim>\<open>get_neighbor_types\<close> recurses until \<^verbatim>\<open>level == 0\<close>. A negative level never
  reaches 0, and the interpreter ends a recursion deeper than its recursion limit with
  RecursionError; the first argument is the number of nested calls still allowed.
\<close>

fun get_neighbor_types ::
  "nat \<Rightarrow> ('n, 'l, 'r) GraphSchema \<Rightarrow> 'l \<Rightarrow> int \<Rightarrow> string
     \<Rightarrow> py_error + ('l, 'r) sampling_node list" where
  "get_neighbor_types 0 gs node_type level key = Inl RecursionError"
| "get_neighbor_types (Suc limit) gs node_type level key =
     (if level = 0 then Inr []
      else
        (case py_lookup (schema gs) node_type of
           Inl e \<Rightarrow> Inl e
         | Inr ets \<Rightarrow>
             comprehension
               (\<lambda>(ii, et).
                  case get_neighbor_types limit gs (n2 et) (level - 1)
                         (gen_key key [ii] @ ''_'') of
                    Inl e \<Rightarrow> Inl e
                  | Inr children \<Rightarrow> Inr (SamplingNode (gen_key key [ii]) et children))
               (enumerate 0 ets)))"

definition get_sampling_tree ::
  "nat \<Rightarrow> ('n, 'l, 'r) GraphSchema \<Rightarrow> 'l list \<Rightarrow> int
     \<Rightarrow> py_error + ('l, 'r) sampling_root list" where
  "get_sampling_tree limit gs head_node_types n_hops =
     comprehension
       (\<lambda>(jj, node_type).
          case get_neighbor_types limit gs node_type n_hops (gen_key [] [jj] @ ''#'') of
            Inl e \<Rightarrow> Inl e
          | Inr children \<Rightarrow> Inr (str jj, node_type, children))
       (enumerate 0 head_node_types)"

section \<open>Type adjacency list\<close>

text \<open>
  An entry of \<^verbatim>\<open>clist\<close> is \<^verbatim>\<open>(node_type, [children])\<close>; an element of the queue is
  \<^verbatim>\<open>(node_type, node_index, level)\<close>. Every entry is created with a fresh empty list,
  so no two entries share their children.
\<close>

type_synonym 'l adj_entry = "'l \<times> nat list"

type_synonym 'l work_item = "'l \<times> nat \<times> nat"

text \<open>The loop over the head nodes.\<close>

fun add_head_nodes ::
  "int \<Rightarrow> (nat \<times> 'l) list \<Rightarrow> 'l adj_entry list \<times> 'l work_item list
     \<Rightarrow> 'l adj_entry list \<times> 'l work_item list" where
  "add_head_nodes n_hops [] st = st"
| "add_head_nodes n_hops ((ii, hn) # hs) (clist, to_process) =
     add_head_nodes n_hops hs
       (clist @ [(hn, [])],
        if n_hops > 0 then to_process @ [(hn, ii, 0)] else to_process)"

text \<open>
  The loop over the edge types of one node. \<^verbatim>\<open>clist[ninx][1].append(cinx)\<close> raises
  IndexError when \<open>ninx\<close> is not an index of \<open>clist\<close>.
\<close>

fun add_children ::
  "int \<Rightarrow> nat \<Rightarrow> nat \<Rightarrow> ('l, 'r) EdgeType list
     \<Rightarrow> 'l adj_entry list \<times> 'l work_item list
     \<Rightarrow> py_error + 'l adj_entry list \<times> 'l work_item list" where
  "add_children n_hops ninx lvl [] st = Inr st"
| "add_children n_hops ninx lvl (et # ets) (clist, to_process) =
     (let cinx = length clist;
          clist1 = clist @ [(n2 et, [])]
      in if ninx < length clist1
         then add_children n_hops ninx lvl ets
                (clist1[ninx := (fst (clist1 ! ninx), snd (clist1 ! ninx) @ [cinx])],
                 if n_hops > int lvl + 1 then to_process @ [(n2 et, cinx, lvl + 1)]
                 else to_process)
         else Inl IndexError)"

text \<open>
  What one pass of \<open>add_children\<close> does to the queue: it appends items one level down,
  and only when that level is below \<open>n_hops\<close>.
\<close>

lemma add_children_queue:
  "add_children n_hops ninx lvl ets (clist, q) = Inr (clist', q') \<Longrightarrow>
   \<exists>new. q' = q @ new \<and> (\<forall>w \<in> set new. snd (snd w) = lvl + 1 \<and> n_hops > int lvl + 1)"
proof (induction ets arbitrary: clist q)
  case Nil
  then show ?case by simp
next
  case (Cons et ets)
  let ?c1 = "clist @ [(n2 et, [])]"
  let ?c2 = "?c1[ninx := (fst (?c1 ! ninx), snd (?c1 ! ninx) @ [length clist])]"
  let ?q2 = "if n_hops > int lvl + 1 then q @ [(n2 et, length clist, lvl + 1)] else q"
  from Cons.prems have run: "add_children n_hops ninx lvl ets (?c2, ?q2) = Inr (clist', q')"
    by (simp add: Let_def split: if_splits)
  from Cons.IH[OF run] obtain new where
    new: "q' = ?q2 @ new" "\<forall>w \<in> set new. snd (snd w) = lvl + 1 \<and> n_hops > int lvl + 1"
    by blast
  show ?case
  proof (cases "n_hops > int lvl + 1")
    case True
    with new have "q' = q @ ((n2 et, length clist, lvl + 1) # new)" by simp
    moreover from True new(2)
    have "\<forall>w \<in> set ((n2 et, length clist, lvl + 1) # new).
            snd (snd w) = lvl + 1 \<and> n_hops > int lvl + 1"
      by simp
    ultimately show ?thesis by blast
  next
    case False
    with new show ?thesis by auto
  qed
qed

text \<open>
  The \<^verbatim>\<open>while not to_process.empty()\<close> loop. It ends because an item is replaced by
  items of a higher level, and no item is queued at level \<open>n_hops\<close>.
\<close>

function process_queue ::
  "('n, 'l, 'r) GraphSchema \<Rightarrow> int \<Rightarrow> 'l adj_entry list \<Rightarrow> 'l work_item list
     \<Rightarrow> py_error + 'l adj_entry list" where
  "process_queue gs n_hops clist [] = Inr clist"
| "process_queue gs n_hops clist ((nt, ninx, lvl) # to_process) =
     (case py_lookup (schema gs) nt of
        Inl e \<Rightarrow> Inl e
      | Inr ets \<Rightarrow>
          (case add_children n_hops ninx lvl ets (clist, to_process) of
             Inl e \<Rightarrow> Inl e
           | Inr (clist', to_process') \<Rightarrow> process_queue gs n_hops clist' to_process'))"
  by pat_completeness auto
termination
proof (relation "inv_image (mult1 less_than)
    (\<lambda>(gs, n_hops, clist, q). mset (map (\<lambda>w. nat (n_hops - int (snd (snd w)))) q))")
  show "wf (inv_image (mult1 less_than)
    (\<lambda>(gs :: ('n, 'l, 'r) GraphSchema, n_hops, clist :: 'l adj_entry list, q :: 'l work_item list).
        mset (map (\<lambda>w. nat (n_hops - int (snd (snd w)))) q)))"
    by (intro wf_inv_image wf_mult1 wf_less_than)
next
  fix gs :: "('n, 'l, 'r) GraphSchema" and n_hops :: int and clist :: "'l adj_entry list"
    and nt :: 'l and ninx lvl :: nat and to_process :: "'l work_item list"
    and ets :: "('l, 'r) EdgeType list" and st clist' to_process'
  assume "py_lookup (schema gs) nt = Inr ets"
    and run: "add_children n_hops ninx lvl ets (clist, to_process) = Inr st"
    and st: "(clist', to_process') = st"
  from run st obtain new where
    new: "to_process' = to_process @ new"
      "\<forall>w \<in> set new. snd (snd w) = lvl + 1 \<and> n_hops > int lvl + 1"
    using add_children_queue[of n_hops ninx lvl ets clist to_process clist' to_process']
    by auto
  let ?m = "\<lambda>w :: 'l work_item. nat (n_hops - int (snd (snd w)))"
  have "mset (map ?m to_process') = mset (map ?m to_process) + mset (map ?m new)"
    using new(1) by simp
  moreover have "mset (map ?m ((nt, ninx, lvl) # to_process))
      = add_mset (nat (n_hops - int lvl)) (mset (map ?m to_process))"
    by simp
  moreover have "\<forall>b. b \<in># mset (map ?m new) \<longrightarrow> (b, nat (n_hops - int lvl)) \<in> less_than"
    using new(2) by auto
  ultimately have "(mset (map ?m to_process'), mset (map ?m ((nt, ninx, lvl) # to_process)))
      \<in> mult1 less_than"
    unfolding mult1_def by blast
  then show "((gs, n_hops, clist', to_process'), (gs, n_hops, clist, (nt, ninx, lvl) # to_process))
      \<in> inv_image (mult1 less_than)
          (\<lambda>(gs, n_hops, clist, q). mset (map (\<lambda>w. nat (n_hops - int (snd (snd w)))) q))"
    by simp
qed

definition get_type_adjacency_list ::
  "('n, 'l, 'r) GraphSchema \<Rightarrow> 'l list \<Rightarrow> int \<Rightarrow> py_error + 'l adj_entry list" where
  "get_type_adjacency_list gs head_node_types n_hops =
     (case add_head_nodes n_hops (enumerate 0 head_node_types) ([], []) of
        (clist, to_process) \<Rightarrow> process_queue gs n_hops clist to_process)"

section \<open>The graph and the construction of its schema\<close>

text \<open>
  Modelled from the spec: the heterogeneous multigraph that \<^verbatim>\<open>StellarGraphBase\<close> inherits
  from (networkx, not part of this module). It enumerates its nodes with their data, its
  edges with two endpoints and their data, and says whether it is directed. Of the data
  only the type attribute is kept: \<open>None\<close> is a node or an edge without it. Node identities
  are the keys of a dict, so no identity occurs twice in \<open>nodes\<close>; parallel edges are allowed.
  \<open>nodes\<close> is \<^verbatim>\<open>self.nodes(data=True)\<close>, \<open>edges\<close> is \<^verbatim>\<open>self.edges(data=True)\<close>, and
  \<^verbatim>\<open>self.edges()\<close> yields the same edges as pairs of endpoints.
\<close>

record ('n, 'l, 'r) graph =
  nodes :: "('n \<times> 'l option) list"
  edges :: "('n \<times> 'n \<times> 'r option) list"
  is_directed :: bool

text \<open>Continue after a step that can raise.\<close>

fun seq :: "py_error + 'a \<Rightarrow> ('a \<Rightarrow> py_error + 'b) \<Rightarrow> py_error + 'b" where
  "seq (Inl e) f = Inl e"
| "seq (Inr v) f = f v"

text \<open>\<^verbatim>\<open>data[self._node_type_attr]\<close>: KeyError when the attribute is missing.\<close>

definition type_attr :: "'a option \<Rightarrow> py_error + 'a" where
  "type_attr data = (case data of None \<Rightarrow> Inl KeyError | Some l \<Rightarrow> Inr l)"

text \<open>\<^verbatim>\<open>self.node[n][self._node_type_attr]\<close>.\<close>

definition node_type_of :: "('n, 'l, 'r) graph \<Rightarrow> 'n \<Rightarrow> py_error + 'l" where
  "node_type_of g n = seq (py_lookup (map_of (nodes g)) n) type_attr"

text \<open>A dict built by a comprehension or by assignments: a later item replaces an earlier one.\<close>

definition dict_of :: "('k \<times> 'v) list \<Rightarrow> ('k \<rightharpoonup> 'v)" where
  "dict_of items = fold (\<lambda>(k, v) d. d(k \<mapsto> v)) items Map.empty"

text \<open>
  \<^verbatim>\<open>graph_schema\<close> is a dict from node type to a set, kept with its items in insertion
  order. \<^verbatim>\<open>graph_schema[k].add(v)\<close> raises KeyError for a key that is not there.
\<close>

fun set_add :: "('k \<times> 'v set) list \<Rightarrow> 'k \<Rightarrow> 'v \<Rightarrow> py_error + ('k \<times> 'v set) list" where
  "set_add [] k v = Inl KeyError"
| "set_add ((k', s) # d) k v =
     (if k' = k then Inr ((k', insert v s) # d)
      else seq (set_add d k v) (\<lambda>d'. Inr ((k', s) # d')))"

text \<open>
  \<^verbatim>\<open>self.edge[e]\<close> (line 299). Neither class of this module defines an attribute
  \<open>edge\<close>, and the graph classes it inherits from have none (networkx from version 2.0), so
  the expression raises AttributeError, whatever the edge. (Before version 2.0 \<open>edge\<close> was
  the adjacency dict, keyed by node, and the subscript by a pair of endpoints raised
  KeyError: an exception in either case.)
\<close>

definition edge_data :: "('n, 'l, 'r) graph \<Rightarrow> 'n \<times> 'n \<Rightarrow> py_error + 'r option" where
  "edge_data g e = Inl AttributeError"

text \<open>
  The loop \<^verbatim>\<open>for e in self.edges()\<close>. Its state is the loop variable \<open>e\<close> (unbound
  before the first edge), the set \<open>edge_types\<close> (here \<open>edge_type_set\<close>) and the dict
  \<open>graph_schema\<close>. The first statement of the body is \<^verbatim>\<open>edata = self.edge[e]\<close>.
\<close>

fun scan_edges ::
  "('n, 'l, 'r) graph \<Rightarrow> ('n \<times> 'n \<times> 'r option) list
     \<Rightarrow> ('n \<times> 'n) option \<times> ('l, 'r) EdgeType set \<times> ('l \<times> ('l, 'r) EdgeType set) list
     \<Rightarrow> py_error +
        ('n \<times> 'n) option \<times> ('l, 'r) EdgeType set \<times> ('l \<times> ('l, 'r) EdgeType set) list" where
  "scan_edges g [] st = Inr st"
| "scan_edges g ((a, b, _) # es) (e, edge_type_set, graph_schema) =
     seq (edge_data g (a, b)) (\<lambda>edata.
     seq (node_type_of g a) (\<lambda>node_type_1.
     seq (node_type_of g b) (\<lambda>node_type_2.
     seq (type_attr edata) (\<lambda>edge_type.
     seq (set_add graph_schema node_type_1 (node_type_1, edge_type, node_type_2))
       (\<lambda>graph_schema1.
     if \<not> is_directed g
     then seq (set_add graph_schema1 node_type_2 (node_type_2, edge_type, node_type_1))
            (\<lambda>graph_schema2.
               scan_edges g es
                 (Some (a, b),
                  insert (node_type_2, edge_type, node_type_1)
                    (insert (node_type_1, edge_type, node_type_2) edge_type_set),
                  graph_schema2))
     else scan_edges g es
            (Some (a, b), insert (node_type_1, edge_type, node_type_2) edge_type_set,
             graph_schema1))))))"

text \<open>
  One value of the \<open>schema\<close> comprehension:
  \<^verbatim>\<open>[edge_types[einx] for einx in sorted([edge_types.index(et) for et in list(node_data)])]\<close>.
  \<^verbatim>\<open>list(node_data)\<close> lists a set in an order of the interpreter's choosing, and
  \<^verbatim>\<open>sorted\<close> then puts the indices in order, whatever that order was.
\<close>

definition schema_entry ::
  "('l::linorder, 'r::linorder) EdgeType list \<Rightarrow> ('l, 'r) EdgeType set
     \<Rightarrow> py_error + ('l, 'r) EdgeType list" where
  "schema_entry edge_type_list node_data =
     seq (comprehension (py_index edge_type_list) (sorted_list_of_set node_data)) (\<lambda>inxs.
       comprehension (\<lambda>einx. py_getitem edge_type_list (int einx)) (sort inxs))"

text \<open>
  \<^verbatim>\<open>create_graph_schema\<close>. The key of the \<open>edge_type_map\<close> comprehension is the
  variable \<open>e\<close>, which the comprehension does not bind: it is the loop variable that the
  loop over the edges has left behind. The comprehension runs over
  \<^verbatim>\<open>self.edges(data=True)\<close>, which carries the data of each edge.
\<close>

definition create_graph_schema ::
  "('n, 'l::linorder, 'r::linorder) graph \<Rightarrow> bool \<Rightarrow> py_error + ('n, 'l, 'r) GraphSchema" where
  "create_graph_schema g create_type_maps =
     seq (comprehension (\<lambda>(n, ndata). type_attr ndata) (nodes g)) (\<lambda>labels.
     let node_types = sorted_list_of_set (set labels) in
     seq (scan_edges g (edges g) (None, {}, map (\<lambda>nt. (nt, {})) node_types))
       (\<lambda>(e, edge_type_set, graph_schema).
     let edge_types = sorted_list_of_set edge_type_set in
     seq (comprehension
            (\<lambda>(node_label, node_data).
               seq (schema_entry edge_types node_data) (\<lambda>ets. Inr (node_label, ets)))
            graph_schema)
       (\<lambda>schema_items.
     let gs = \<lparr>node_types = node_types, edge_types = edge_types,
               schema = dict_of schema_items, node_type_map = None, edge_type_map = None\<rparr> in
     if create_type_maps
     then
       seq (comprehension
              (\<lambda>(n, ndata).
                 seq (type_attr ndata) (\<lambda>l.
                 seq (py_index node_types l) (\<lambda>i. Inr (n, i))))
              (nodes g))
         (\<lambda>node_items.
       let node_type_map = dict_of node_items in
       seq (comprehension
              (\<lambda>(a, b, edata).
                 seq (case e of None \<Rightarrow> Inl NameError | Some key \<Rightarrow> Inr key) (\<lambda>key.
                 seq (py_lookup node_type_map a) (\<lambda>i1.
                 seq (py_getitem node_types (int i1)) (\<lambda>t1.
                 seq (type_attr edata) (\<lambda>edge_type.
                 seq (py_lookup node_type_map b) (\<lambda>i2.
                 seq (py_getitem node_types (int i2)) (\<lambda>t2.
                 seq (py_index edge_types (t1, edge_type, t2)) (\<lambda>i. Inr (key, i)))))))))
              (edges g))
         (\<lambda>edge_items.
       Inr (gs\<lparr>node_type_map := Some node_type_map,
               edge_type_map := Some (dict_of edge_items)\<rparr>)))
     else Inr gs)))"

section \<open>Notions used in the statements\<close>

text \<open>
  A schema is closed when every edge type it lists leads to a node type that is a key of
  the schema. An adjacency list is forward when every child index is above the index of
  its entry and is an index of the list.
\<close>

definition schema_closed :: "('n, 'l, 'r) GraphSchema \<Rightarrow> bool" where
  "schema_closed gs =
     (\<forall>t \<in> dom (schema gs). \<forall>et \<in> set (the (schema gs t)). n2 et \<in> dom (schema gs))"

definition forward :: "'l adj_entry list \<Rightarrow> bool" where
  "forward clist = (\<forall>i < length clist. \<forall>c \<in> set (snd (clist ! i)). i < c \<and> c < length clist)"

fun the_index :: "'a list \<Rightarrow> 'a \<Rightarrow> nat" where
  "the_index [] x = 0"
| "the_index (y # ys) x = (if y = x then 0 else Suc (the_index ys x))"

fun node_id :: "('l, 'r) sampling_node \<Rightarrow> string" where
  "node_id (SamplingNode i et cs) = i"

fun node_et :: "('l, 'r) sampling_node \<Rightarrow> ('l, 'r) EdgeType" where
  "node_et (SamplingNode i et cs) = et"

fun node_children :: "('l, 'r) sampling_node \<Rightarrow> ('l, 'r) sampling_node list" where
  "node_children (SamplingNode i et cs) = cs"

primrec ids :: "('l, 'r) sampling_node \<Rightarrow> string list" where
  "ids (SamplingNode i et cs) = i # concat (map ids cs)"

definition tree_ids :: "('l, 'r) sampling_root list \<Rightarrow> string list" where
  "tree_ids roots = concat (map (\<lambda>(i, t, cs). i # concat (map ids cs)) roots)"

fun node_at :: "('l, 'r) sampling_node list \<Rightarrow> nat list \<Rightarrow> ('l, 'r) sampling_node option" where
  "node_at cs [] = None"
| "node_at cs (i # path) =
     (if i < length cs
      then (if path = [] then Some (cs ! i) else node_at (node_children (cs ! i)) path)
      else None)"

definition digit_value :: "char \<Rightarrow> nat" where
  "digit_value c = the_index ''0123456789'' c"

definition number :: "string \<Rightarrow> nat" where
  "number s = foldl (\<lambda>a c. 10 * a + digit_value c) 0 s"

definition is_digit :: "char \<Rightarrow> bool" where
  "is_digit c = (c \<in> set ''0123456789'')"

text \<open>A tail is empty or begins with the separator.\<close>

definition tail_of :: "char \<Rightarrow> string \<Rightarrow> bool" where
  "tail_of sep r = (r = [] \<or> (\<exists>r'. r = sep # r'))"

definition keyed :: "char \<Rightarrow> string \<Rightarrow> nat set \<Rightarrow> string \<Rightarrow> bool" where
  "keyed sep key I x = (\<exists>i \<in> I. \<exists>r. x = key @ str i @ r \<and> tail_of sep r)"

section \<open>A worked example\<close>

text \<open>
  The graph of the specification's example: persons rate movies, undirected. Nodes 1 and 3
  are persons, node 2 is a movie; node 4, a genre, has no edge.
\<close>

definition example_graph :: "(nat, string, string) graph" where
  "example_graph =
     \<lparr>nodes = [(1, Some ''Person''), (2, Some ''Movie''), (3, Some ''Person''),
               (4, Some ''Genre'')],
      edges = [(1, 2, Some ''rates''), (3, 2, Some ''rates'')],
      is_directed = False\<rparr>"

text \<open>The same nodes and edges, directed.\<close>

definition example_digraph :: "(nat, string, string) graph" where
  "example_digraph = example_graph\<lparr>is_directed := True\<rparr>"

text \<open>A graph without edges: two persons and a movie.\<close>

definition example_nodes :: "(nat, string, string) graph" where
  "example_nodes =
     \<lparr>nodes = [(1, Some ''Person''), (2, Some ''Movie''), (3, Some ''Person'')],
      edges = [],
      is_directed = False\<rparr>"

text \<open>
  The schema that the specification describes for the example graph, written out as the
  fields of a \<^verbatim>\<open>GraphSchema\<close>: persons and movies lead to each other, a genre leads
  nowhere.
\<close>

definition example_schema :: "(nat, string, string) GraphSchema" where
  "example_schema =
     \<lparr>node_types = [''Genre'', ''Movie'', ''Person''],
      edge_types = [(''Movie'', ''rates'', ''Person''), (''Person'', ''rates'', ''Movie'')],
      schema = [''Genre'' \<mapsto> [], ''Movie'' \<mapsto> [(''Movie'', ''rates'', ''Person'')],
                ''Person'' \<mapsto> [(''Person'', ''rates'', ''Movie'')]],
      node_type_map = Some [1 \<mapsto> 2, 2 \<mapsto> 1, 3 \<mapsto> 2, 4 \<mapsto> 0],
      edge_type_map = Some [(1, 2) \<mapsto> 1, (3, 2) \<mapsto> 1]\<rparr>"

text \<open>A schema without a cycle: a type \<open>A\<close> leads to a type \<open>B\<close>, which leads nowhere.\<close>

definition chain_schema :: "(nat, string, string) GraphSchema" where
  "chain_schema =
     \<lparr>node_types = [''A'', ''B''],
      edge_types = [(''A'', ''r'', ''B'')],
      schema = [''A'' \<mapsto> [(''A'', ''r'', ''B'')], ''B'' \<mapsto> []],
      node_type_map = None, edge_type_map = None\<rparr>"

section \<open>Lookups by index\<close>

lemma py_getitem_negative:
  "- int (length xs) \<le> i \<Longrightarrow> i < 0 \<Longrightarrow> py_getitem xs i = Inr (xs ! nat (int (length xs) + i))"
  by (simp add: py_getitem_def)

lemma py_getitem_none_iff:
  "(case py_getitem xs i of Inl e \<Rightarrow> None | Inr key \<Rightarrow> Some key) = None
     \<longleftrightarrow> int (length xs) \<le> i \<or> i < - int (length xs)"
  by (auto simp: py_getitem_def)

text \<open>
  C10. With \<open>k\<close> node types, \<open>k \<ge> 1\<close>, \<open>node_index_to_key i\<close> for \<open>-k \<le> i \<le> -1\<close> is the
  label at position \<open>k + i\<close>, counted from the end, and not absent; the result is absent
  exactly for \<open>i \<ge> k\<close> or \<open>i < -k\<close>. The same holds for \<open>edge_index_to_key\<close> over the edge types.
\<close>

theorem index_to_key_end_relative:
  fixes gs :: "('n, 'l, 'r) GraphSchema"
  shows "(1 \<le> length (node_types gs) \<and> - int (length (node_types gs)) \<le> i \<and> i \<le> - 1 \<longrightarrow>
            node_index_to_key gs i = Some (node_types gs ! nat (int (length (node_types gs)) + i)))
       \<and> (node_index_to_key gs i = None \<longleftrightarrow>
            int (length (node_types gs)) \<le> i \<or> i < - int (length (node_types gs)))
       \<and> (1 \<le> length (edge_types gs) \<and> - int (length (edge_types gs)) \<le> i \<and> i \<le> - 1 \<longrightarrow>
            edge_index_to_key gs i = Some (edge_types gs ! nat (int (length (edge_types gs)) + i)))
       \<and> (edge_index_to_key gs i = None \<longleftrightarrow>
            int (length (edge_types gs)) \<le> i \<or> i < - int (length (edge_types gs)))"
  unfolding node_index_to_key_def edge_index_to_key_def
  by (simp add: py_getitem_negative py_getitem_none_iff)

theorem index_to_key_end_relative_witness:
  "node_index_to_key
     \<lparr>node_types = [''Movie'', ''Person''],
      edge_types = [(''Movie'', ''rates'', ''Person''), (''Person'', ''rates'', ''Movie'')],
      schema = [''Movie'' \<mapsto> [(''Movie'', ''rates'', ''Person'')],
                ''Person'' \<mapsto> [(''Person'', ''rates'', ''Movie'')]],
      node_type_map = None :: (nat \<rightharpoonup> nat) option, edge_type_map = None\<rparr> (- 1) = Some ''Person''
   \<and> edge_index_to_key
     \<lparr>node_types = [''Movie'', ''Person''],
      edge_types = [(''Movie'', ''rates'', ''Person''), (''Person'', ''rates'', ''Movie'')],
      schema = [''Movie'' \<mapsto> [(''Movie'', ''rates'', ''Person'')],
                ''Person'' \<mapsto> [(''Person'', ''rates'', ''Movie'')]],
      node_type_map = None :: (nat \<rightharpoonup> nat) option, edge_type_map = None\<rparr> (- 2)
       = Some (''Movie'', ''rates'', ''Person'')"
  using index_to_key_end_relative [of
     "\<lparr>node_types = [''Movie'', ''Person''],
      edge_types = [(''Movie'', ''rates'', ''Person''), (''Person'', ''rates'', ''Movie'')],
      schema = [''Movie'' \<mapsto> [(''Movie'', ''rates'', ''Person'')],
                ''Person'' \<mapsto> [(''Person'', ''rates'', ''Movie'')]],
      node_type_map = None :: (nat \<rightharpoonup> nat) option, edge_type_map = None\<rparr>" "- 1"]
    index_to_key_end_relative [of
     "\<lparr>node_types = [''Movie'', ''Person''],
      edge_types = [(''Movie'', ''rates'', ''Person''), (''Person'', ''rates'', ''Movie'')],
      schema = [''Movie'' \<mapsto> [(''Movie'', ''rates'', ''Person'')],
                ''Person'' \<mapsto> [(''Person'', ''rates'', ''Movie'')]],
      node_type_map = None :: (nat \<rightharpoonup> nat) option, edge_type_map = None\<rparr>" "- 2"]
  by simp

section \<open>The type of a node\<close>

text \<open>
  C2. \<open>get_node_type node False\<close> is meant to return the label of the node's type. On the
  schema built with type maps from the graph without edges, node 1 is a person, and the
  call returns the label at position 0 of \<open>node_types\<close>, which is the movie label.
\<close>

theorem get_node_type_first_label:
  "(case create_graph_schema example_nodes True of
      Inl e \<Rightarrow> None
    | Inr gs \<Rightarrow> get_node_type gs 1 False) = Some (TypeName ''Movie'')
   \<and> node_type_of example_nodes 1 = Inr ''Person''"
  by code_simp

section \<open>Comprehensions and the head loop\<close>

lemma comprehension_Inr_iff:
  "comprehension f xs = Inr ys \<longleftrightarrow> list_all2 (\<lambda>x y. f x = Inr y) xs ys"
proof (induction xs arbitrary: ys)
  case Nil
  then show ?case by auto
next
  case (Cons x xs)
  show ?case
    by (cases ys) (auto simp: Cons.IH[symmetric] split: sum.splits)
qed

lemma comprehension_Inl_iff:
  "(\<exists>e. comprehension f xs = Inl e) \<longleftrightarrow> (\<exists>x \<in> set xs. \<exists>e. f x = Inl e)"
  by (induction xs) (auto split: sum.splits)

lemma comprehension_total:
  "comprehension (\<lambda>x. Inr (f x)) xs = Inr (map f xs)"
  by (induction xs) auto

lemma add_head_nodes_eq:
  "add_head_nodes n_hops (enumerate k hs) (clist, q) =
     (clist @ map (\<lambda>h. (h, [])) hs,
      if n_hops > 0 then q @ map (\<lambda>(i, h). (h, i, 0)) (enumerate k hs) else q)"
  by (induction hs arbitrary: k clist q) auto

section \<open>Head types that the schema does not have\<close>

lemma get_neighbor_types_unknown:
  "level \<noteq> 0 \<Longrightarrow> schema gs t = None \<Longrightarrow> \<exists>e. get_neighbor_types limit gs t level key = Inl e"
  by (cases limit) (simp_all add: py_lookup_def)

lemma process_queue_unknown:
  "\<exists>w \<in> set q. schema gs (fst w) = None \<Longrightarrow> \<exists>e. process_queue gs n_hops clist q = Inl e"
proof (induction gs n_hops clist q rule: process_queue.induct)
  case (1 gs n_hops clist)
  then show ?case by simp
next
  case (2 gs n_hops clist nt ninx lvl to_process)
  show ?case
  proof (cases "schema gs nt")
    case None
    then show ?thesis by (simp add: py_lookup_def)
  next
    case (Some ets)
    then have look: "py_lookup (schema gs) nt = Inr ets" by (simp add: py_lookup_def)
    from Some "2.prems" have bad: "\<exists>w \<in> set to_process. schema gs (fst w) = None" by auto
    show ?thesis
    proof (cases "add_children n_hops ninx lvl ets (clist, to_process)")
      case (Inl e)
      with look show ?thesis by simp
    next
      case (Inr st)
      obtain clist' q' where st: "st = (clist', q')" by (cases st)
      from Inr st add_children_queue obtain new where "q' = to_process @ new" by blast
      with bad have "\<exists>w \<in> set q'. schema gs (fst w) = None" by auto
      from "2.IH"[OF look Inr st[symmetric] this] look Inr st show ?thesis by simp
    qed
  qed
qed

text \<open>
  C5 (amended). For every \<open>n_hops \<ge> 1\<close>, a head type that is not a key of the schema makes
  both functions raise. At \<open>n_hops = 0\<close> neither looks at the schema: whatever the head
  types, \<open>get_type_adjacency_list\<close> returns one entry without children for each head, and so
  does \<open>get_sampling_tree\<close> (when one call may be nested).
\<close>

theorem unknown_head_raises:
  "(0 < n_hops \<and> (\<exists>h \<in> set heads. schema gs h = None) \<longrightarrow>
      (\<exists>e. get_sampling_tree limit gs heads n_hops = Inl e)
    \<and> (\<exists>e. get_type_adjacency_list gs heads n_hops = Inl e))
   \<and> (0 < limit \<longrightarrow>
        get_sampling_tree limit gs heads 0 = Inr (map (\<lambda>(j, h). (str j, h, [])) (enumerate 0 heads)))
   \<and> get_type_adjacency_list gs heads 0 = Inr (map (\<lambda>h. (h, [])) heads)"
proof (intro conjI impI)
  assume a: "0 < n_hops \<and> (\<exists>h \<in> set heads. schema gs h = None)"
  then obtain h where h: "h \<in> set heads" "schema gs h = None" by blast
  from h(1) obtain j where "j < length heads" "heads ! j = h"
    by (auto simp: in_set_conv_nth)
  then have j: "(j, h) \<in> set (enumerate 0 heads)"
    by (simp add: in_set_enumerate_eq)
  from a h(2) obtain e where
    "get_neighbor_types limit gs h n_hops (gen_key [] [j] @ ''#'') = Inl e"
    using get_neighbor_types_unknown[of n_hops gs h limit] by auto
  with j show "\<exists>e. get_sampling_tree limit gs heads n_hops = Inl e"
    unfolding get_sampling_tree_def comprehension_Inl_iff by force
  from j have "(h, j, 0) \<in> set (map (\<lambda>(i, h). (h, i, 0)) (enumerate 0 heads))" by force
  with h(2) have "\<exists>w \<in> set (map (\<lambda>(i, h). (h, i, 0)) (enumerate 0 heads)). schema gs (fst w) = None"
    by force
  from process_queue_unknown[OF this] a
  show "\<exists>e. get_type_adjacency_list gs heads n_hops = Inl e"
    by (simp add: get_type_adjacency_list_def add_head_nodes_eq)
next
  assume "0 < limit"
  then obtain l where "limit = Suc l" by (cases limit) auto
  then show "get_sampling_tree limit gs heads 0
      = Inr (map (\<lambda>(j, h). (str j, h, [])) (enumerate 0 heads))"
    by (simp add: get_sampling_tree_def comprehension_total[symmetric] split_def)
next
  show "get_type_adjacency_list gs heads 0 = Inr (map (\<lambda>h. (h, [])) heads)"
    by (simp add: get_type_adjacency_list_def add_head_nodes_eq)
qed

theorem unknown_head_raises_witness:
  "(\<exists>e. get_sampling_tree 5 example_schema [''Person'', ''Actor''] 1 = Inl e)
   \<and> (\<exists>e. get_type_adjacency_list example_schema [''Person'', ''Actor''] 1 = Inl e)
   \<and> get_type_adjacency_list example_schema [''Person'', ''Actor''] 0
       = Inr [(''Person'', []), (''Actor'', [])]"
  using unknown_head_raises [of 1 "[''Person'', ''Actor'']" example_schema 5]
    unknown_head_raises [of 0 "[''Person'', ''Actor'']" example_schema 5]
  by (simp add: example_schema_def)

text \<open>
  The claim as stated fails at depth 0: the head type \<open>Actor\<close> is not in the example schema,
  and both functions return a root for it.
\<close>

theorem unknown_head_counterexample:
  "schema example_schema ''Actor'' = None
   \<and> get_sampling_tree 1000 example_schema [''Actor''] 0 = Inr [(''0'', ''Actor'', [])]
   \<and> get_type_adjacency_list example_schema [''Actor''] 0 = Inr [(''Actor'', [])]"
  by code_simp


section \<open>Child indices of the adjacency list\<close>

lemma add_children_step:
  "ninx < length clist \<Longrightarrow>
   add_children n_hops ninx lvl (et # ets) (clist, q) =
     add_children n_hops ninx lvl ets
       ((clist @ [(n2 et, [])])[ninx := (fst (clist ! ninx), snd (clist ! ninx) @ [length clist])],
        if n_hops > int lvl + 1 then q @ [(n2 et, length clist, lvl + 1)] else q)"
  by (simp add: Let_def nth_append)

lemma forward_step:
  assumes "forward clist" "ninx < length clist"
  shows "forward ((clist @ [(t, [])])[ninx := (fst (clist ! ninx), snd (clist ! ninx) @ [length clist])])"
  unfolding forward_def
proof (intro allI impI ballI)
  fix i c
  let ?cl = "(clist @ [(t, [])])[ninx := (fst (clist ! ninx), snd (clist ! ninx) @ [length clist])]"
  assume i: "i < length ?cl" and c: "c \<in> set (snd (?cl ! i))"
  have len: "length ?cl = Suc (length clist)" by simp
  have old: "\<And>j d. j < length clist \<Longrightarrow> d \<in> set (snd (clist ! j)) \<Longrightarrow> j < d \<and> d < length clist"
    using assms(1) unfolding forward_def by blast
  show "i < c \<and> c < length ?cl"
  proof (cases "i = ninx")
    case True
    with c assms(2) have "c \<in> set (snd (clist ! ninx)) \<or> c = length clist" by auto
    then show ?thesis
    proof
      assume "c \<in> set (snd (clist ! ninx))"
      from old[OF assms(2) this] True len show ?thesis by simp
    next
      assume "c = length clist"
      with True assms(2) len show ?thesis by simp
    qed
  next
    case False
    show ?thesis
    proof (cases "i < length clist")
      case True
      with False c have "c \<in> set (snd (clist ! i))" by (simp add: nth_append)
      from old[OF True this] len show ?thesis by simp
    next
      case False
      with i len have "i = length clist" by simp
      with \<open>i \<noteq> ninx\<close> c show ?thesis by simp
    qed
  qed
qed

lemma add_children_indices:
  "add_children n_hops ninx lvl ets (clist, q) = Inr (clist', q') \<Longrightarrow>
   ninx < length clist \<Longrightarrow> \<forall>w \<in> set q. fst (snd w) < length clist \<Longrightarrow>
   (\<forall>w \<in> set q'. fst (snd w) < length clist') \<and> length clist \<le> length clist'"
proof (induction ets arbitrary: clist q)
  case Nil
  then show ?case by simp
next
  case (Cons et ets)
  let ?c2 = "(clist @ [(n2 et, [])])[ninx := (fst (clist ! ninx), snd (clist ! ninx) @ [length clist])]"
  let ?q2 = "if n_hops > int lvl + 1 then q @ [(n2 et, length clist, lvl + 1)] else q"
  from Cons.prems(1,2) have run: "add_children n_hops ninx lvl ets (?c2, ?q2) = Inr (clist', q')"
    by (simp only: add_children_step)
  have n2: "ninx < length ?c2" using Cons.prems(2) by simp
  have q2: "\<forall>w \<in> set ?q2. fst (snd w) < length ?c2"
    using Cons.prems(3) by (auto simp: less_Suc_eq)
  from Cons.IH[OF run n2 q2] show ?case by simp
qed

lemma add_children_forward:
  "add_children n_hops ninx lvl ets (clist, q) = Inr (clist', q') \<Longrightarrow>
   forward clist \<Longrightarrow> ninx < length clist \<Longrightarrow> forward clist'"
proof (induction ets arbitrary: clist q)
  case Nil
  then show ?case by simp
next
  case (Cons et ets)
  let ?c2 = "(clist @ [(n2 et, [])])[ninx := (fst (clist ! ninx), snd (clist ! ninx) @ [length clist])]"
  let ?q2 = "if n_hops > int lvl + 1 then q @ [(n2 et, length clist, lvl + 1)] else q"
  from Cons.prems(1,3) have run: "add_children n_hops ninx lvl ets (?c2, ?q2) = Inr (clist', q')"
    by (simp only: add_children_step)
  have f2: "forward ?c2" using Cons.prems(2,3) by (rule forward_step)
  have n2: "ninx < length ?c2" using Cons.prems(3) by simp
  from Cons.IH[OF run f2 n2] show ?case .
qed

lemma add_children_returns:
  "ninx < length clist \<Longrightarrow> \<exists>st. add_children n_hops ninx lvl ets (clist, q) = Inr st"
proof (induction ets arbitrary: clist q)
  case Nil
  then show ?case by simp
next
  case (Cons et ets)
  let ?c2 = "(clist @ [(n2 et, [])])[ninx := (fst (clist ! ninx), snd (clist ! ninx) @ [length clist])]"
  have "ninx < length ?c2" using Cons.prems by simp
  from Cons.IH[OF this] Cons.prems show ?case by (simp only: add_children_step)
qed

lemma add_children_types:
  "add_children n_hops ninx lvl ets (clist, q) = Inr (clist', q') \<Longrightarrow>
   fst ` set q' \<subseteq> fst ` set q \<union> n2 ` set ets"
proof (induction ets arbitrary: clist q)
  case Nil
  then show ?case by simp
next
  case (Cons et ets)
  let ?c1 = "clist @ [(n2 et, [])]"
  let ?c2 = "?c1[ninx := (fst (?c1 ! ninx), snd (?c1 ! ninx) @ [length clist])]"
  let ?q2 = "if n_hops > int lvl + 1 then q @ [(n2 et, length clist, lvl + 1)] else q"
  from Cons.prems have run: "add_children n_hops ninx lvl ets (?c2, ?q2) = Inr (clist', q')"
    by (simp add: Let_def split: if_splits)
  from Cons.IH[OF run] show ?case by (auto split: if_splits)
qed

lemma process_queue_forward:
  "process_queue gs n_hops clist q = Inr result \<Longrightarrow>
   forward clist \<Longrightarrow> \<forall>w \<in> set q. fst (snd w) < length clist \<Longrightarrow> forward result"
proof (induction gs n_hops clist q rule: process_queue.induct)
  case (1 gs n_hops clist)
  then show ?case by simp
next
  case (2 gs n_hops clist nt ninx lvl to_process)
  from "2.prems"(1) obtain ets where look: "py_lookup (schema gs) nt = Inr ets"
    by (auto split: sum.splits)
  with "2.prems"(1) obtain clist' q' where
    run: "add_children n_hops ninx lvl ets (clist, to_process) = Inr (clist', q')"
    and rest: "process_queue gs n_hops clist' q' = Inr result"
    by (auto split: sum.splits)
  from "2.prems"(3) have "ninx < length clist" "\<forall>w \<in> set to_process. fst (snd w) < length clist"
    by auto
  from add_children_forward[OF run "2.prems"(2) this(1)] add_children_indices[OF run this]
  have "forward clist'" "\<forall>w \<in> set q'. fst (snd w) < length clist'" by auto
  from "2.IH"[OF look run refl rest this] show ?case .
qed

lemma process_queue_returns:
  "schema_closed gs \<Longrightarrow> \<forall>w \<in> set q. fst w \<in> dom (schema gs) \<and> fst (snd w) < length clist \<Longrightarrow>
   \<exists>result. process_queue gs n_hops clist q = Inr result"
proof (induction gs n_hops clist q rule: process_queue.induct)
  case (1 gs n_hops clist)
  then show ?case by simp
next
  case (2 gs n_hops clist nt ninx lvl to_process)
  from "2.prems"(2) obtain ets where ets: "schema gs nt = Some ets" by auto
  then have look: "py_lookup (schema gs) nt = Inr ets" by (simp add: py_lookup_def)
  from "2.prems"(2) have nx: "ninx < length clist" by simp
  from add_children_returns[OF nx, of n_hops lvl ets to_process] obtain clist' q' where
    run: "add_children n_hops ninx lvl ets (clist, to_process) = Inr (clist', q')"
    by force
  from add_children_queue[OF run] obtain new where new: "q' = to_process @ new" by blast
  from add_children_types[OF run] have ty: "fst ` set q' \<subseteq> fst ` set to_process \<union> n2 ` set ets" .
  from ets "2.prems"(1) have cl: "\<forall>et \<in> set ets. n2 et \<in> dom (schema gs)"
    unfolding schema_closed_def by force
  have types: "\<forall>w \<in> set q'. fst w \<in> dom (schema gs)"
  proof
    fix w assume "w \<in> set q'"
    with ty have "fst w \<in> fst ` set to_process \<union> n2 ` set ets" by auto
    with cl "2.prems"(2) show "fst w \<in> dom (schema gs)" by auto
  qed
  from "2.prems"(2) have "\<forall>w \<in> set to_process. fst (snd w) < length clist" by simp
  from add_children_indices[OF run nx this]
  have len: "\<forall>w \<in> set q'. fst (snd w) < length clist'" by simp
  from types len have "\<forall>w \<in> set q'. fst w \<in> dom (schema gs) \<and> fst (snd w) < length clist'" by simp
  from "2.IH"[OF look run refl "2.prems"(1) this] look run show ?case by simp
qed


lemma example_schema_closed: "schema_closed example_schema"
  by (simp add: schema_closed_def example_schema_def n2_def)

text \<open>
  C9. In every adjacency list that \<open>get_type_adjacency_list\<close> returns, each child index
  recorded for the entry at index \<open>i\<close> is greater than \<open>i\<close> and is an index of the list. The
  function does return a list when the schema is closed and has every head type. A child is
  recorded after its entry is appended: one pass of the loop body for an edge type appends
  the entry at index \<open>len(clist)\<close> and then records that index at the parent.
\<close>

theorem adjacency_children_forward:
  fixes gs :: "('n, 'l, 'r) GraphSchema"
  shows "(get_type_adjacency_list gs heads n_hops = Inr clist \<longrightarrow>
      (\<forall>i < length clist. \<forall>c \<in> set (snd (clist ! i)). i < c \<and> c < length clist))
   \<and> (schema_closed gs \<and> set heads \<subseteq> dom (schema gs) \<longrightarrow>
        (\<exists>result. get_type_adjacency_list gs heads n_hops = Inr result))
   \<and> (ninx < length cl0 \<and> add_children n_hops ninx lvl [et] (cl0, q0) = Inr (cl1, q1) \<longrightarrow>
        length cl1 = Suc (length cl0) \<and> cl1 ! length cl0 = (n2 et, [])
        \<and> snd (cl1 ! ninx) = snd (cl0 ! ninx) @ [length cl0])"
proof (intro conjI impI)
  let ?cl = "map (\<lambda>h. (h, [])) heads :: 'l adj_entry list"
  let ?q = "if n_hops > 0 then map (\<lambda>(i, h). (h, i, 0)) (enumerate 0 heads) else []"
  have start: "get_type_adjacency_list gs heads n_hops = process_queue gs n_hops ?cl ?q"
    by (simp add: get_type_adjacency_list_def add_head_nodes_eq)
  have idx: "\<forall>w \<in> set ?q. fst (snd w) < length ?cl"
    by (auto simp: in_set_enumerate_eq)
  have fw: "forward ?cl" by (simp add: forward_def)
  {
    assume "get_type_adjacency_list gs heads n_hops = Inr clist"
    with start have "process_queue gs n_hops ?cl ?q = Inr clist" by simp
    from process_queue_forward[OF this fw idx]
    show "\<forall>i < length clist. \<forall>c \<in> set (snd (clist ! i)). i < c \<and> c < length clist"
      unfolding forward_def .
  }
  {
    assume a: "schema_closed gs \<and> set heads \<subseteq> dom (schema gs)"
    then have "\<forall>h \<in> set heads. h \<in> dom (schema gs)" by blast
    then have "\<forall>w \<in> set ?q. fst w \<in> dom (schema gs)"
      by (auto simp: in_set_enumerate_eq simp del: domIff)
    with idx have "\<forall>w \<in> set ?q. fst w \<in> dom (schema gs) \<and> fst (snd w) < length ?cl" by blast
    from process_queue_returns[OF _ this] a start
    show "\<exists>result. get_type_adjacency_list gs heads n_hops = Inr result" by simp
  }
  {
    assume "ninx < length cl0 \<and> add_children n_hops ninx lvl [et] (cl0, q0) = Inr (cl1, q1)"
    then have nx: "ninx < length cl0"
      and cl1: "cl1 = (cl0 @ [(n2 et, [])])[ninx := (fst (cl0 ! ninx), snd (cl0 ! ninx) @ [length cl0])]"
      by (auto simp: Let_def nth_append)
    from cl1 show "length cl1 = Suc (length cl0)" by simp
    from cl1 nx show "cl1 ! length cl0 = (n2 et, [])" by simp
    from cl1 nx show "snd (cl1 ! ninx) = snd (cl0 ! ninx) @ [length cl0]" by simp
  }
qed

theorem adjacency_children_forward_witness:
  "get_type_adjacency_list example_schema [''Person'', ''Movie''] 2
     = Inr [(''Person'', [2]), (''Movie'', [3]), (''Movie'', [4]), (''Person'', [5]),
            (''Person'', []), (''Movie'', [])]
   \<and> (1 :: nat) < 3 \<and> (3 :: nat) < 6
   \<and> add_children 2 0 0 [(''Person'', ''rates'', ''Movie'')] ([(''Person'', [])], [])
       = Inr ([(''Person'', [1]), (''Movie'', [])], [(''Movie'', 1, 1)])"
proof -
  let ?L = "[(''Person'', [2]), (''Movie'', [3]), (''Movie'', [4]), (''Person'', [5]),
            (''Person'', []), (''Movie'', [])] :: string adj_entry list"
  have run: "get_type_adjacency_list example_schema [''Person'', ''Movie''] 2 = Inr ?L"
    by code_simp
  have step: "add_children 2 0 0 [(''Person'', ''rates'', ''Movie'')] ([(''Person'', [])], [])
       = Inr ([(''Person'', [1]), (''Movie'', [])], [(''Movie'', 1, 1)])"
    by code_simp
  have heads: "set [''Person'', ''Movie''] \<subseteq> dom (schema example_schema)"
    by (simp add: example_schema_def)
  from adjacency_children_forward [of example_schema "[''Person'', ''Movie'']" 2 ?L
      0 "[(''Person'', [])]" 0 "(''Person'', ''rates'', ''Movie'')" "[]"
      "[(''Person'', [1]), (''Movie'', [])]" "[(''Movie'', 1, 1)]"]
    run step heads example_schema_closed
  have "\<forall>i < length ?L. \<forall>c \<in> set (snd (?L ! i)). i < c \<and> c < length ?L" by blast
  then have "\<forall>c \<in> set (snd (?L ! 1)). 1 < c \<and> c < length ?L" by simp
  then have "(1 :: nat) < 3 \<and> (3 :: nat) < 6" by simp
  with run step show ?thesis by simp
qed

section \<open>Construction of the schema\<close>



lemma comprehension_map:
  "\<forall>x \<in> set xs. f x = Inr (g x) \<Longrightarrow> comprehension f xs = Inr (map g xs)"
  by (induction xs) auto

lemma py_index_the_index: "x \<in> set xs \<Longrightarrow> py_index xs x = Inr (the_index xs x)"
  by (induction xs) auto

lemma the_index_less: "x \<in> set xs \<Longrightarrow> the_index xs x < length xs"
  by (induction xs) auto

lemma nth_the_index: "x \<in> set xs \<Longrightarrow> xs ! the_index xs x = x"
  by (induction xs) auto

lemma the_index_inj: "x \<in> set xs \<Longrightarrow> y \<in> set xs \<Longrightarrow> the_index xs x = the_index xs y \<Longrightarrow> x = y"
  by (metis nth_the_index)

lemma sorted_the_index_filter:
  "distinct xs \<Longrightarrow> sorted (map (the_index xs) (filter P xs))"
proof (induction xs)
  case Nil
  then show ?case by simp
next
  case (Cons y ys)
  have "map (the_index (y # ys)) (filter P ys) = map (\<lambda>x. Suc (the_index ys x)) (filter P ys)"
    by (rule map_cong) (use Cons.prems in auto)
  moreover have "sorted (map (\<lambda>x. Suc (the_index ys x)) (filter P ys))"
    using Cons by (simp add: sorted_wrt_map)
  ultimately have tail: "sorted (map (the_index (y # ys)) (filter P ys))" by (simp only:)
  have hd: "the_index (y # ys) y = 0" by simp
  from tail hd show ?case by (cases "P y") (auto simp del: the_index.simps)
qed

lemma schema_entry_eq:
  assumes "finite S" "S \<subseteq> set xs" "distinct xs"
  shows "schema_entry xs S = Inr (filter (\<lambda>x. x \<in> S) xs)"
proof -
  let ?L = "sorted_list_of_set S"
  let ?F = "filter (\<lambda>x. x \<in> S) xs"
  have setL: "set ?L = S" and dL: "distinct ?L" using assms(1) by simp_all
  have c1: "comprehension (py_index xs) ?L = Inr (map (the_index xs) ?L)"
    using setL assms(2) by (intro comprehension_map) (auto simp: py_index_the_index)
  have setF: "set ?F = S" using assms(2) by auto
  have inj: "inj_on (the_index xs) S"
    by (rule inj_on_subset[OF _ assms(2)], rule inj_onI, rule the_index_inj)
  have "distinct (map (the_index xs) ?L)"
    unfolding distinct_map using dL setL inj by simp
  then have d1: "distinct (sort (map (the_index xs) ?L))" by simp
  have "distinct (map (the_index xs) ?F)"
    unfolding distinct_map using assms(3) setF inj by simp
  moreover have "set (sort (map (the_index xs) ?L)) = set (map (the_index xs) ?F)"
    using setL setF by simp
  ultimately have srt: "sort (map (the_index xs) ?L) = map (the_index xs) ?F"
    using d1 sorted_the_index_filter[OF assms(3)]
    by (intro sorted_distinct_set_unique) simp_all
  have c2: "comprehension (\<lambda>einx. py_getitem xs (int einx)) (map (the_index xs) ?F)
      = Inr (map (\<lambda>i. xs ! i) (map (the_index xs) ?F))"
    by (intro comprehension_map) (auto simp: py_getitem_def the_index_less)
  have "map (\<lambda>i. xs ! i) (map (the_index xs) ?F) = map (\<lambda>x. x) ?F"
    unfolding map_map by (rule map_cong) (auto simp: nth_the_index)
  then have "map (\<lambda>i. xs ! i) (map (the_index xs) ?F) = ?F" by simp
  with c1 c2 srt show ?thesis by (simp add: schema_entry_def)
qed



section \<open>What the built schema contains\<close>







text \<open>
  C1. With type maps, \<open>edge_type_map\<close> is meant to have a key \<open>(n1, n2)\<close> for every edge
  of the graph, mapped to the index of the edge's triple. On the example graph, whose
  edges are \<open>(1, 2)\<close> and \<open>(3, 2)\<close>, no map is built: the loop over the edges raises at its
  first statement, \<^verbatim>\<open>self.edge[e]\<close>, before the map's comprehension is reached.
\<close>

theorem edge_type_map_not_built:
  "(case create_graph_schema example_graph True of
      Inl e \<Rightarrow> Some e
    | Inr gs \<Rightarrow> None) = Some AttributeError
   \<and> (1, 2, Some ''rates'') \<in> set (edges example_graph)"
  by code_simp

text \<open>
  C6. For an edge of relation \<open>r\<close> between nodes of types \<open>A\<close> and \<open>B\<close>, the construction is
  meant to register \<open>(A, r, B)\<close>, and \<open>(B, r, A)\<close> as well when the graph is undirected. On
  the example graph, undirected or directed, and with or without type maps, nothing is
  registered: the loop over the edges raises at \<^verbatim>\<open>self.edge[e]\<close> for the first edge, and
  no schema is returned.
\<close>

theorem edge_types_not_registered:
  "(case create_graph_schema example_graph False of
      Inl e \<Rightarrow> Some e
    | Inr gs \<Rightarrow> None) = Some AttributeError
   \<and> (case create_graph_schema example_digraph False of
      Inl e \<Rightarrow> Some e
    | Inr gs \<Rightarrow> None) = Some AttributeError
   \<and> \<not> is_directed example_graph \<and> is_directed example_digraph
   \<and> node_type_of example_graph 1 = Inr ''Person''
   \<and> node_type_of example_graph 2 = Inr ''Movie''"
  by code_simp

section \<open>Identifiers of the sampling tree\<close>

lemma the_index_nth: "distinct xs \<Longrightarrow> i < length xs \<Longrightarrow> the_index xs (xs ! i) = i"
  by (metis nth_mem nth_eq_iff_index_eq the_index_less nth_the_index)

lemma digit_value_digit: "d < 10 \<Longrightarrow> digit_value (digit d) = d"
  unfolding digit_value_def digit_def by (rule the_index_nth) simp_all

lemma is_digit_digit: "d < 10 \<Longrightarrow> is_digit (digit d)"
  unfolding is_digit_def digit_def by (rule nth_mem) simp

lemma number_str: "number (str n) = n"
proof (induction n rule: str.induct)
  case (1 n)
  show ?case
  proof (cases "n < 10")
    case True
    then show ?thesis by (subst str.simps) (simp add: number_def digit_value_digit)
  next
    case False
    with 1 have "number (str (n div 10)) = n div 10" by simp
    with False show ?thesis
      by (subst str.simps) (simp add: number_def digit_value_digit)
  qed
qed

lemma str_digits: "\<forall>c \<in> set (str n). is_digit c"
proof (induction n rule: str.induct)
  case (1 n)
  show ?case
  proof (cases "n < 10")
    case True
    then show ?thesis by (subst str.simps) (simp add: is_digit_digit)
  next
    case False
    with 1 show ?thesis by (subst str.simps) (simp add: is_digit_digit)
  qed
qed

lemma str_inj: "str i = str j \<Longrightarrow> i = j"
  by (metis number_str)

lemma str_tail_unique:
  assumes "\<not> is_digit sep" "tail_of sep r" "tail_of sep r'" "str i @ r = str j @ r'"
  shows "i = j"
proof -
  have tw: "\<And>n t. tail_of sep t \<Longrightarrow> takeWhile is_digit (str n @ t) = str n"
    using assms(1) str_digits by (auto simp: tail_of_def)
  from assms(4) have "takeWhile is_digit (str i @ r) = takeWhile is_digit (str j @ r')" by simp
  with tw[OF assms(2)] tw[OF assms(3)] have "str i = str j" by simp
  then show ?thesis by (rule str_inj)
qed

lemma keyed_disjoint:
  "\<not> is_digit sep \<Longrightarrow> keyed sep key I x \<Longrightarrow> keyed sep key J x \<Longrightarrow> I \<inter> J \<noteq> {}"
  unfolding keyed_def by (auto dest: str_tail_unique)

lemma keyed_mono: "keyed sep key I x \<Longrightarrow> I \<subseteq> J \<Longrightarrow> keyed sep key J x"
  unfolding keyed_def by blast

lemma gen_key_single: "gen_key key [i] = key @ str i"
  by (simp add: gen_key_def)

lemma get_neighbor_types_level0:
  "get_neighbor_types limit gs t 0 key = Inr cs \<Longrightarrow> cs = []"
  by (cases limit) auto

lemma get_neighbor_types_children:
  assumes "get_neighbor_types limit gs t level key = Inr cs" "level \<noteq> 0"
  shows "\<exists>l ets. limit = Suc l \<and> schema gs t = Some ets \<and> length cs = length ets
     \<and> (\<forall>i < length ets. \<exists>ch. cs ! i = SamplingNode (key @ str i) (ets ! i) ch
          \<and> get_neighbor_types l gs (n2 (ets ! i)) (level - 1) (key @ str i @ ''_'') = Inr ch)"
proof -
  from assms(1) obtain l where l: "limit = Suc l" by (cases limit) auto
  with assms obtain ets where ets: "schema gs t = Some ets"
    and run: "comprehension
               (\<lambda>(ii, et).
                  case get_neighbor_types l gs (n2 et) (level - 1) (gen_key key [ii] @ ''_'') of
                    Inl e \<Rightarrow> Inl e
                  | Inr children \<Rightarrow> Inr (SamplingNode (gen_key key [ii]) et children))
               (enumerate 0 ets) = Inr cs"
    by (auto simp: py_lookup_def split: option.splits sum.splits)
  from run have all2: "list_all2 (\<lambda>x y. (case x of (ii, et) \<Rightarrow>
                  case get_neighbor_types l gs (n2 et) (level - 1) (gen_key key [ii] @ ''_'') of
                    Inl e \<Rightarrow> Inl e
                  | Inr children \<Rightarrow> Inr (SamplingNode (gen_key key [ii]) et children)) = Inr y)
        (enumerate 0 ets) cs"
    by (simp add: comprehension_Inr_iff)
  then have len: "length cs = length ets" by (auto dest: list_all2_lengthD)
  have "\<forall>i < length ets. \<exists>ch. cs ! i = SamplingNode (key @ str i) (ets ! i) ch
          \<and> get_neighbor_types l gs (n2 (ets ! i)) (level - 1) (key @ str i @ ''_'') = Inr ch"
  proof (intro allI impI)
    fix i assume i: "i < length ets"
    with all2 have "(case enumerate 0 ets ! i of (ii, et) \<Rightarrow>
                  case get_neighbor_types l gs (n2 et) (level - 1) (gen_key key [ii] @ ''_'') of
                    Inl e \<Rightarrow> Inl e
                  | Inr children \<Rightarrow> Inr (SamplingNode (gen_key key [ii]) et children))
              = Inr (cs ! i)"
      by (auto dest: list_all2_nthD)
    with i show "\<exists>ch. cs ! i = SamplingNode (key @ str i) (ets ! i) ch
          \<and> get_neighbor_types l gs (n2 (ets ! i)) (level - 1) (key @ str i @ ''_'') = Inr ch"
      by (auto simp: nth_enumerate_eq gen_key_single split: sum.splits)
  qed
  with l ets len show ?thesis by blast
qed

lemma get_neighbor_types_edge_types:
  assumes "get_neighbor_types limit gs t level key = Inr cs"
  shows "map node_et cs = (if level = 0 then [] else the (schema gs t))"
proof (cases "level = 0")
  case True
  with assms show ?thesis by (auto dest: get_neighbor_types_level0)
next
  case False
  from get_neighbor_types_children[OF assms False] obtain ets where
    ets: "schema gs t = Some ets" "length cs = length ets"
    "\<forall>i < length ets. \<exists>ch. cs ! i = SamplingNode (key @ str i) (ets ! i) ch" by blast
  then have "map node_et cs = ets"
    by (intro nth_equalityI) auto
  with ets(1) False show ?thesis by simp
qed

lemma distinct_concat_labelled:
  assumes "\<forall>i < length xs. distinct (f (xs ! i))"
    and "\<forall>i < length xs. \<forall>x \<in> set (f (xs ! i)). P i x"
    and "\<And>i j x. P i x \<Longrightarrow> P j x \<Longrightarrow> i = j"
  shows "distinct (concat (map f xs))"
  using assms
proof (induction xs arbitrary: P)
  case Nil
  then show ?case by simp
next
  case (Cons a xs)
  have d: "distinct (f a)" using Cons.prems(1) by force
  have a0: "\<forall>x \<in> set (f a). P 0 x" using Cons.prems(2) by force
  have rest: "\<forall>i < length xs. \<forall>x \<in> set (f (xs ! i)). P (Suc i) x"
    using Cons.prems(2) by force
  have "distinct (concat (map f xs))"
  proof (rule Cons.IH[where P = "\<lambda>i. P (Suc i)"])
    show "\<forall>i < length xs. distinct (f (xs ! i))" using Cons.prems(1) by force
    show "\<forall>i < length xs. \<forall>x \<in> set (f (xs ! i)). P (Suc i) x" by (rule rest)
    show "\<And>i j x. P (Suc i) x \<Longrightarrow> P (Suc j) x \<Longrightarrow> i = j" using Cons.prems(3) by blast
  qed
  moreover have "set (f a) \<inter> set (concat (map f xs)) = {}"
  proof (rule ccontr)
    assume "set (f a) \<inter> set (concat (map f xs)) \<noteq> {}"
    then obtain x y where x: "x \<in> set (f a)" "y \<in> set xs" "x \<in> set (f y)" by auto
    from x(2) obtain k where "k < length xs" "xs ! k = y" by (auto simp: in_set_conv_nth)
    with rest x(3) have "P (Suc k) x" by blast
    moreover from a0 x(1) have "P 0 x" by blast
    ultimately show False using Cons.prems(3) by blast
  qed
  ultimately show ?case using d by simp
qed

lemma underscore_no_digit: "\<not> is_digit CHR ''_''" and hash_no_digit: "\<not> is_digit CHR ''#''"
  by (simp_all add: is_digit_def)

lemma ids_keyed:
  "get_neighbor_types limit gs t level key = Inr cs \<Longrightarrow>
   distinct (concat (map ids cs))
   \<and> (\<forall>i < length cs. \<forall>x \<in> set (ids (cs ! i)). keyed CHR ''_'' key {i} x)"
proof (induction limit arbitrary: t level key cs)
  case 0
  then show ?case by simp
next
  case (Suc limit)
  show ?case
  proof (cases "level = 0")
    case True
    with Suc.prems show ?thesis by simp
  next
    case False
    from get_neighbor_types_children[OF Suc.prems False] obtain ets where
      len: "length cs = length ets"
      and kids: "\<forall>i < length ets. \<exists>ch. cs ! i = SamplingNode (key @ str i) (ets ! i) ch
          \<and> get_neighbor_types limit gs (n2 (ets ! i)) (level - 1) (key @ str i @ ''_'') = Inr ch"
      by auto
    have node: "\<forall>i < length cs. distinct (ids (cs ! i))
        \<and> (\<forall>x \<in> set (ids (cs ! i)). keyed CHR ''_'' key {i} x)"
    proof (intro allI impI)
      fix i assume "i < length cs"
      with len kids obtain ch where
        c: "cs ! i = SamplingNode (key @ str i) (ets ! i) ch"
        and run: "get_neighbor_types limit gs (n2 (ets ! i)) (level - 1) (key @ str i @ ''_'') = Inr ch"
        by auto
      from Suc.IH[OF run] have dch: "distinct (concat (map ids ch))"
        and kch: "\<forall>k < length ch. \<forall>x \<in> set (ids (ch ! k)). keyed CHR ''_'' (key @ str i @ ''_'') {k} x"
        by auto
      have below: "\<forall>x \<in> set (concat (map ids ch)). \<exists>r. x = key @ str i @ CHR ''_'' # r"
      proof
        fix x assume "x \<in> set (concat (map ids ch))"
        then obtain y where "y \<in> set ch" "x \<in> set (ids y)" by auto
        then obtain k where "k < length ch" "x \<in> set (ids (ch ! k))"
          by (metis in_set_conv_nth)
        with kch have "keyed CHR ''_'' (key @ str i @ ''_'') {k} x" by blast
        then show "\<exists>r. x = key @ str i @ CHR ''_'' # r" by (auto simp: keyed_def)
      qed
      then have "key @ str i \<notin> set (concat (map ids ch))" by fastforce
      with dch c have "distinct (ids (cs ! i))" by simp
      moreover have "\<forall>x \<in> set (ids (cs ! i)). keyed CHR ''_'' key {i} x"
      proof
        fix x assume "x \<in> set (ids (cs ! i))"
        with c have "x = key @ str i \<or> x \<in> set (concat (map ids ch))" by auto
        then show "keyed CHR ''_'' key {i} x"
        proof
          assume "x = key @ str i"
          then show ?thesis by (auto simp: keyed_def tail_of_def)
        next
          assume "x \<in> set (concat (map ids ch))"
          with below obtain r where "x = key @ str i @ CHR ''_'' # r" by blast
          then show ?thesis by (auto simp: keyed_def tail_of_def)
        qed
      qed
      ultimately show "distinct (ids (cs ! i))
        \<and> (\<forall>x \<in> set (ids (cs ! i)). keyed CHR ''_'' key {i} x)" by blast
    qed
    have "distinct (concat (map ids cs))"
    proof (rule distinct_concat_labelled[where P = "\<lambda>i. keyed CHR ''_'' key {i}"])
      show "\<forall>i < length cs. distinct (ids (cs ! i))" using node by blast
      show "\<forall>i < length cs. \<forall>x \<in> set (ids (cs ! i)). keyed CHR ''_'' key {i} x" using node by blast
      show "\<And>i j x. keyed CHR ''_'' key {i} x \<Longrightarrow> keyed CHR ''_'' key {j} x \<Longrightarrow> i = j"
        using keyed_disjoint[OF underscore_no_digit] by fastforce
    qed
    with node show ?thesis by blast
  qed
qed

lemma get_sampling_tree_roots:
  assumes "get_sampling_tree limit gs heads n_hops = Inr roots"
  shows "length roots = length heads
     \<and> (\<forall>j < length heads. \<exists>ch. roots ! j = (str j, heads ! j, ch)
          \<and> get_neighbor_types limit gs (heads ! j) n_hops (str j @ ''#'') = Inr ch)"
proof -
  from assms have all2: "list_all2 (\<lambda>x y. (case x of (jj, node_type) \<Rightarrow>
          case get_neighbor_types limit gs node_type n_hops (gen_key [] [jj] @ ''#'') of
            Inl e \<Rightarrow> Inl e
          | Inr children \<Rightarrow> Inr (str jj, node_type, children)) = Inr y)
        (enumerate 0 heads) roots"
    by (simp add: get_sampling_tree_def comprehension_Inr_iff)
  then have len: "length roots = length heads" by (auto dest: list_all2_lengthD)
  have "\<forall>j < length heads. \<exists>ch. roots ! j = (str j, heads ! j, ch)
          \<and> get_neighbor_types limit gs (heads ! j) n_hops (str j @ ''#'') = Inr ch"
  proof (intro allI impI)
    fix j assume j: "j < length heads"
    with all2 have "(case enumerate 0 heads ! j of (jj, node_type) \<Rightarrow>
          case get_neighbor_types limit gs node_type n_hops (gen_key [] [jj] @ ''#'') of
            Inl e \<Rightarrow> Inl e
          | Inr children \<Rightarrow> Inr (str jj, node_type, children)) = Inr (roots ! j)"
      by (auto dest: list_all2_nthD)
    with j show "\<exists>ch. roots ! j = (str j, heads ! j, ch)
          \<and> get_neighbor_types limit gs (heads ! j) n_hops (str j @ ''#'') = Inr ch"
      by (auto simp: nth_enumerate_eq gen_key_single split: sum.splits)
  qed
  with len show ?thesis by blast
qed

lemma node_at_id:
  "get_neighbor_types limit gs t level key = Inr cs \<Longrightarrow> node_at cs path = Some c \<Longrightarrow>
   node_id c = key @ join ''_'' (map str path)
   \<and> map node_et (node_children c)
       = (if level = int (length path) then [] else the (schema gs (n2 (node_et c))))"
proof (induction path arbitrary: limit t level key cs)
  case Nil
  then show ?case by simp
next
  case (Cons i path)
  from Cons.prems(2) have i: "i < length cs" by (auto split: if_splits)
  with Cons.prems(1) have lv: "level \<noteq> 0" by (auto dest: get_neighbor_types_level0)
  from get_neighbor_types_children[OF Cons.prems(1) lv] i obtain l ets ch where
    c: "cs ! i = SamplingNode (key @ str i) (ets ! i) ch"
    and run: "get_neighbor_types l gs (n2 (ets ! i)) (level - 1) (key @ str i @ ''_'') = Inr ch"
    by force
  show ?case
  proof (cases "path = []")
    case True
    with Cons.prems(2) i c have "c = SamplingNode (key @ str i) (ets ! i) ch" by simp
    with True get_neighbor_types_edge_types[OF run] show ?thesis by auto
  next
    case False
    with Cons.prems(2) i c have at: "node_at ch path = Some c" by simp
    from False obtain k rest where kr: "path = k # rest" by (cases path) auto
    from Cons.IH[OF run at] kr show ?thesis by auto
  qed
qed

lemma tree_ids_distinct:
  assumes "get_sampling_tree limit gs heads n_hops = Inr roots"
  shows "distinct (tree_ids roots)"
  unfolding tree_ids_def
proof (rule distinct_concat_labelled[where P = "\<lambda>j. keyed CHR ''#'' [] {j}"])
  from get_sampling_tree_roots[OF assms] have len: "length roots = length heads"
    and rt: "\<forall>j < length heads. \<exists>ch. roots ! j = (str j, heads ! j, ch)
          \<and> get_neighbor_types limit gs (heads ! j) n_hops (str j @ ''#'') = Inr ch"
    by auto
  have node: "\<forall>j < length roots.
      distinct (case roots ! j of (i, t, cs) \<Rightarrow> i # concat (map ids cs))
      \<and> (\<forall>x \<in> set (case roots ! j of (i, t, cs) \<Rightarrow> i # concat (map ids cs)).
            keyed CHR ''#'' [] {j} x)"
  proof (intro allI impI)
    fix j assume "j < length roots"
    with len rt obtain ch where r: "roots ! j = (str j, heads ! j, ch)"
      and run: "get_neighbor_types limit gs (heads ! j) n_hops (str j @ ''#'') = Inr ch"
      by auto
    from ids_keyed[OF run] have dch: "distinct (concat (map ids ch))"
      and kch: "\<forall>k < length ch. \<forall>x \<in> set (ids (ch ! k)). keyed CHR ''_'' (str j @ ''#'') {k} x"
      by auto
    have below: "\<forall>x \<in> set (concat (map ids ch)). \<exists>r. x = str j @ CHR ''#'' # r"
    proof
      fix x assume "x \<in> set (concat (map ids ch))"
      then obtain y where "y \<in> set ch" "x \<in> set (ids y)" by auto
      then obtain k where "k < length ch" "x \<in> set (ids (ch ! k))"
        by (metis in_set_conv_nth)
      with kch have "keyed CHR ''_'' (str j @ ''#'') {k} x" by blast
      then show "\<exists>r. x = str j @ CHR ''#'' # r" by (auto simp: keyed_def)
    qed
    then have "str j \<notin> set (concat (map ids ch))" by fastforce
    with dch r have "distinct (case roots ! j of (i, t, cs) \<Rightarrow> i # concat (map ids cs))"
      by simp
    moreover have "\<forall>x \<in> set (case roots ! j of (i, t, cs) \<Rightarrow> i # concat (map ids cs)).
            keyed CHR ''#'' [] {j} x"
    proof
      fix x assume "x \<in> set (case roots ! j of (i, t, cs) \<Rightarrow> i # concat (map ids cs))"
      with r have "x = str j \<or> x \<in> set (concat (map ids ch))" by auto
      then show "keyed CHR ''#'' [] {j} x"
      proof
        assume "x = str j"
        then show ?thesis by (auto simp: keyed_def tail_of_def)
      next
        assume "x \<in> set (concat (map ids ch))"
        with below obtain r where "x = str j @ CHR ''#'' # r" by blast
        then show ?thesis by (auto simp: keyed_def tail_of_def)
      qed
    qed
    ultimately show "distinct (case roots ! j of (i, t, cs) \<Rightarrow> i # concat (map ids cs))
      \<and> (\<forall>x \<in> set (case roots ! j of (i, t, cs) \<Rightarrow> i # concat (map ids cs)).
            keyed CHR ''#'' [] {j} x)" by blast
  qed
  show "\<forall>j < length roots. distinct (case roots ! j of (i, t, cs) \<Rightarrow> i # concat (map ids cs))"
    using node by blast
  show "\<forall>j < length roots.
      \<forall>x \<in> set (case roots ! j of (i, t, cs) \<Rightarrow> i # concat (map ids cs)).
        keyed CHR ''#'' [] {j} x"
    using node by blast
  show "\<And>i j x. keyed CHR ''#'' [] {i} x \<Longrightarrow> keyed CHR ''#'' [] {j} x \<Longrightarrow> i = j"
    using keyed_disjoint[OF hash_no_digit] by fastforce
qed

text \<open>
  C4 (amended). In a tree that \<open>get_sampling_tree\<close> returns there is one root for each head,
  in order; root \<open>j\<close> has the id \<open>str(j)\<close> and the type of head \<open>j\<close>. The children of a node
  are the edge types that the schema lists for its type, in order (none at depth
  \<open>n_hops\<close>). The node reached from root \<open>j\<close> by the child indices \<open>i1, ..., ik\<close> has the id
  \<open>str(j) + "#" + str(i1) + "_" + ... + "_" + str(ik)\<close>: child \<open>i\<close> gets the prefix of its
  parent followed by \<open>str(i)\<close>, where the prefix is the parent's id followed by \<open>#\<close> for a
  root and by \<open>_\<close> for any other node. All ids of the tree are different.
\<close>

theorem sampling_tree_ids:
  assumes "get_sampling_tree limit gs heads n_hops = Inr roots"
  shows "length roots = length heads
     \<and> (\<forall>j < length roots.
          fst (roots ! j) = str j \<and> fst (snd (roots ! j)) = heads ! j
          \<and> map node_et (snd (snd (roots ! j)))
              = (if n_hops = 0 then [] else the (schema gs (heads ! j))))
     \<and> (\<forall>j path c. j < length roots \<and> node_at (snd (snd (roots ! j))) path = Some c \<longrightarrow>
          node_id c = str j @ ''#'' @ join ''_'' (map str path)
          \<and> map node_et (node_children c)
              = (if n_hops = int (length path) then []
                 else the (schema gs (n2 (node_et c)))))
     \<and> distinct (tree_ids roots)"
proof -
  from get_sampling_tree_roots[OF assms] have len: "length roots = length heads"
    and rt: "\<forall>j < length heads. \<exists>ch. roots ! j = (str j, heads ! j, ch)
          \<and> get_neighbor_types limit gs (heads ! j) n_hops (str j @ ''#'') = Inr ch"
    by auto
  have a: "\<forall>j < length roots.
          fst (roots ! j) = str j \<and> fst (snd (roots ! j)) = heads ! j
          \<and> map node_et (snd (snd (roots ! j)))
              = (if n_hops = 0 then [] else the (schema gs (heads ! j)))"
  proof (intro allI impI)
    fix j assume "j < length roots"
    with len rt obtain ch where r: "roots ! j = (str j, heads ! j, ch)"
      and run: "get_neighbor_types limit gs (heads ! j) n_hops (str j @ ''#'') = Inr ch"
      by auto
    from r get_neighbor_types_edge_types[OF run]
    show "fst (roots ! j) = str j \<and> fst (snd (roots ! j)) = heads ! j
          \<and> map node_et (snd (snd (roots ! j)))
              = (if n_hops = 0 then [] else the (schema gs (heads ! j)))"
      by simp
  qed
  have b: "\<forall>j path c. j < length roots \<and> node_at (snd (snd (roots ! j))) path = Some c \<longrightarrow>
          node_id c = str j @ ''#'' @ join ''_'' (map str path)
          \<and> map node_et (node_children c)
              = (if n_hops = int (length path) then []
                 else the (schema gs (n2 (node_et c))))"
  proof (intro allI impI)
    fix j path c
    assume h: "j < length roots \<and> node_at (snd (snd (roots ! j))) path = Some c"
    with len rt obtain ch where r: "roots ! j = (str j, heads ! j, ch)"
      and run: "get_neighbor_types limit gs (heads ! j) n_hops (str j @ ''#'') = Inr ch"
      by auto
    from h r have "node_at ch path = Some c" by simp
    from node_at_id[OF run this]
    show "node_id c = str j @ ''#'' @ join ''_'' (map str path)
          \<and> map node_et (node_children c)
              = (if n_hops = int (length path) then []
                 else the (schema gs (n2 (node_et c))))"
      by simp
  qed
  from len a b tree_ids_distinct[OF assms] show ?thesis by blast
qed

text \<open>
  The claim as stated fails on the example schema: the root has the id \<open>0\<close>, not \<open>0#\<close>,
  and its child has the id \<open>0#0\<close>, not \<open>0#0_\<close>.
\<close>

theorem sampling_tree_ids_counterexample:
  "get_sampling_tree 1000 example_schema [''Person''] 1
     = Inr [(''0'', ''Person'', [SamplingNode ''0#0'' (''Person'', ''rates'', ''Movie'') []])]
   \<and> ''0'' \<noteq> ''0#'' \<and> ''0#0'' \<noteq> ''0#0_''"
  by code_simp

theorem sampling_tree_ids_witness:
  "get_sampling_tree 5 example_schema [''Person'', ''Genre''] 2
     = Inr [(''0'', ''Person'',
              [SamplingNode ''0#0'' (''Person'', ''rates'', ''Movie'')
                 [SamplingNode ''0#0_0'' (''Movie'', ''rates'', ''Person'') []]]),
            (''1'', ''Genre'', [])]
   \<and> distinct [''0'', ''0#0'', ''0#0_0'', ''1'']
   \<and> ''0#0_0'' = str 0 @ ''#'' @ join ''_'' (map str [0, 0])"
proof -
  let ?roots = "[(''0'', ''Person'',
              [SamplingNode ''0#0'' (''Person'', ''rates'', ''Movie'')
                 [SamplingNode ''0#0_0'' (''Movie'', ''rates'', ''Person'') []]]),
            (''1'', ''Genre'', [])] :: (string, string) sampling_root list"
  have run: "get_sampling_tree 5 example_schema [''Person'', ''Genre''] 2 = Inr ?roots"
    by code_simp
  have at: "(0 :: nat) < length ?roots
      \<and> node_at (snd (snd (?roots ! 0))) [0, 0]
          = Some (SamplingNode ''0#0_0'' (''Movie'', ''rates'', ''Person'') [])"
    by simp
  from sampling_tree_ids[OF run] at
  have "node_id (SamplingNode ''0#0_0'' (''Movie'', ''rates'', ''Person'') [])
      = str 0 @ ''#'' @ join ''_'' (map str [0, 0])"
    and "distinct (tree_ids ?roots)"
    by blast+
  with run show ?thesis by (simp add: tree_ids_def)
qed

section \<open>Negative depths\<close>

lemma get_neighbor_types_unbounded:
  "level < 0 \<or> int limit \<le> level \<Longrightarrow> level' < 0 \<or> int limit \<le> level' \<Longrightarrow>
   get_neighbor_types limit gs t level key = get_neighbor_types limit gs t level' key"
proof (induction limit arbitrary: t level level' key)
  case 0
  then show ?case by simp
next
  case (Suc limit)
  have "\<And>t' key'. get_neighbor_types limit gs t' (level - 1) key'
      = get_neighbor_types limit gs t' (level' - 1) key'"
    using Suc.prems by (intro Suc.IH) auto
  moreover from Suc.prems have "level \<noteq> 0" "level' \<noteq> 0" by auto
  ultimately show ?case by (simp split: sum.splits)
qed

lemma get_neighbor_types_leaf:
  "level \<noteq> 0 \<Longrightarrow> schema gs t = Some [] \<Longrightarrow> get_neighbor_types (Suc limit) gs t level key = Inr []"
  by (simp add: py_lookup_def)

lemma get_neighbor_types_endless:
  assumes "\<forall>t \<in> T. \<exists>et rest. schema gs t = Some (et # rest) \<and> n2 et \<in> T"
  shows "level < 0 \<Longrightarrow> t \<in> T \<Longrightarrow>
         get_neighbor_types limit gs t level key = Inl RecursionError"
proof (induction limit arbitrary: t level key)
  case 0
  then show ?case by simp
next
  case (Suc limit)
  from assms Suc.prems(2) obtain et rest where
    ets: "schema gs t = Some (et # rest)" and next_in: "n2 et \<in> T" by blast
  from Suc.prems(1) have "level - 1 < 0" by simp
  from Suc.IH[OF this next_in]
  have "get_neighbor_types limit gs (n2 et) (level - 1) (gen_key key [0] @ ''_'')
      = Inl RecursionError" .
  with Suc.prems(1) ets show ?case
    by (simp add: py_lookup_def)
qed

text \<open>
  C3 (amended). Neither function checks \<open>n_hops\<close>, and no call is rejected for its depth.
  For every \<open>n_hops < 0\<close>, \<open>get_type_adjacency_list\<close> returns one entry without children for
  each head, as for depth 0, and does not look at the schema. \<open>get_sampling_tree\<close> never
  stops at a depth: its result is the one for depth \<open>-1\<close> and the one for any depth at or
  beyond the recursion limit; in a tree it returns, every node at every depth has all the
  edge types of its schema entry as children. It returns roots without children when no
  head type has an outgoing edge type, and it ends in RecursionError when the descent
  from the first head can go on for ever: when there is a set of types with the first
  head in it, from each of which the first edge type leads back into the set.
\<close>

theorem negative_depth_not_rejected:
  assumes "n_hops < 0"
  shows "get_type_adjacency_list gs heads n_hops = Inr (map (\<lambda>h. (h, [])) heads)
     \<and> get_sampling_tree limit gs heads n_hops = get_sampling_tree limit gs heads (- 1)
     \<and> (\<forall>m. int limit \<le> m \<longrightarrow>
          get_sampling_tree limit gs heads n_hops = get_sampling_tree limit gs heads m)
     \<and> (\<forall>roots. get_sampling_tree limit gs heads n_hops = Inr roots \<longrightarrow>
          (\<forall>j < length roots.
             map node_et (snd (snd (roots ! j))) = the (schema gs (heads ! j)))
          \<and> (\<forall>j path c. j < length roots \<and> node_at (snd (snd (roots ! j))) path = Some c \<longrightarrow>
                map node_et (node_children c) = the (schema gs (n2 (node_et c)))))
     \<and> (0 < limit \<and> (\<forall>h \<in> set heads. schema gs h = Some []) \<longrightarrow>
          get_sampling_tree limit gs heads n_hops
            = Inr (map (\<lambda>(j, h). (str j, h, [])) (enumerate 0 heads)))
     \<and> ((\<forall>t \<in> T. \<exists>et rest. schema gs t = Some (et # rest) \<and> n2 et \<in> T)
          \<and> heads \<noteq> [] \<and> hd heads \<in> T \<longrightarrow>
          get_sampling_tree limit gs heads n_hops = Inl RecursionError)"
proof -
  have c1: "get_type_adjacency_list gs heads n_hops = Inr (map (\<lambda>h. (h, [])) heads)"
    using assms by (simp add: get_type_adjacency_list_def add_head_nodes_eq)
  have same: "\<And>m t key. m < 0 \<or> int limit \<le> m \<Longrightarrow>
      get_neighbor_types limit gs t n_hops key = get_neighbor_types limit gs t m key"
    using assms by (intro get_neighbor_types_unbounded) auto
  have c2: "get_sampling_tree limit gs heads n_hops = get_sampling_tree limit gs heads (- 1)"
    using same[of "- 1"] by (simp add: get_sampling_tree_def)
  have c3: "\<forall>m. int limit \<le> m \<longrightarrow>
          get_sampling_tree limit gs heads n_hops = get_sampling_tree limit gs heads m"
  proof (intro allI impI)
    fix m :: int assume "int limit \<le> m"
    then have "\<And>t key. get_neighbor_types limit gs t n_hops key
        = get_neighbor_types limit gs t m key"
      using same by blast
    then show "get_sampling_tree limit gs heads n_hops = get_sampling_tree limit gs heads m"
      by (simp add: get_sampling_tree_def)
  qed
  have c4: "\<forall>roots. get_sampling_tree limit gs heads n_hops = Inr roots \<longrightarrow>
          (\<forall>j < length roots.
             map node_et (snd (snd (roots ! j))) = the (schema gs (heads ! j)))
          \<and> (\<forall>j path c. j < length roots \<and> node_at (snd (snd (roots ! j))) path = Some c \<longrightarrow>
                map node_et (node_children c) = the (schema gs (n2 (node_et c))))"
  proof (intro allI impI)
    fix roots assume run: "get_sampling_tree limit gs heads n_hops = Inr roots"
    from get_sampling_tree_roots[OF run] have len: "length roots = length heads"
      and rt: "\<forall>j < length heads. \<exists>ch. roots ! j = (str j, heads ! j, ch)
          \<and> get_neighbor_types limit gs (heads ! j) n_hops (str j @ ''#'') = Inr ch"
      by auto
    have a: "\<forall>j < length roots.
             map node_et (snd (snd (roots ! j))) = the (schema gs (heads ! j))"
    proof (intro allI impI)
      fix j assume "j < length roots"
      with len rt obtain ch where r: "roots ! j = (str j, heads ! j, ch)"
        and g: "get_neighbor_types limit gs (heads ! j) n_hops (str j @ ''#'') = Inr ch"
        by auto
      from get_neighbor_types_edge_types[OF g] assms r
      show "map node_et (snd (snd (roots ! j))) = the (schema gs (heads ! j))" by simp
    qed
    have b: "\<forall>j path c. j < length roots \<and> node_at (snd (snd (roots ! j))) path = Some c \<longrightarrow>
                map node_et (node_children c) = the (schema gs (n2 (node_et c)))"
    proof (intro allI impI)
      fix j path c
      assume h: "j < length roots \<and> node_at (snd (snd (roots ! j))) path = Some c"
      with len rt obtain ch where r: "roots ! j = (str j, heads ! j, ch)"
        and g: "get_neighbor_types limit gs (heads ! j) n_hops (str j @ ''#'') = Inr ch"
        by auto
      from h r have "node_at ch path = Some c" by simp
      from node_at_id[OF g this] assms
      show "map node_et (node_children c) = the (schema gs (n2 (node_et c)))" by simp
    qed
    from a b show "(\<forall>j < length roots.
             map node_et (snd (snd (roots ! j))) = the (schema gs (heads ! j)))
          \<and> (\<forall>j path c. j < length roots \<and> node_at (snd (snd (roots ! j))) path = Some c \<longrightarrow>
                map node_et (node_children c) = the (schema gs (n2 (node_et c))))"
      by blast
  qed
  have c5: "0 < limit \<and> (\<forall>h \<in> set heads. schema gs h = Some []) \<longrightarrow>
          get_sampling_tree limit gs heads n_hops
            = Inr (map (\<lambda>(j, h). (str j, h, [])) (enumerate 0 heads))"
  proof
    assume a: "0 < limit \<and> (\<forall>h \<in> set heads. schema gs h = Some [])"
    then obtain l where l: "limit = Suc l" by (cases limit) auto
    have "\<forall>x \<in> set (enumerate 0 heads). (case x of (jj, node_type) \<Rightarrow>
            case get_neighbor_types limit gs node_type n_hops (gen_key [] [jj] @ ''#'') of
              Inl e \<Rightarrow> Inl e | Inr children \<Rightarrow> Inr (str jj, node_type, children))
          = Inr (case x of (j, h) \<Rightarrow> (str j, h, []))"
    proof
      fix x assume x: "x \<in> set (enumerate 0 heads)"
      obtain j h where jh: "x = (j, h)" by (cases x)
      with x have "h \<in> set heads" by (auto simp: in_set_enumerate_eq)
      with a have "schema gs h = Some []" by blast
      with assms have "get_neighbor_types limit gs h n_hops (gen_key [] [j] @ ''#'') = Inr []"
        unfolding l by (intro get_neighbor_types_leaf) auto
      with jh show "(case x of (jj, node_type) \<Rightarrow>
            case get_neighbor_types limit gs node_type n_hops (gen_key [] [jj] @ ''#'') of
              Inl e \<Rightarrow> Inl e | Inr children \<Rightarrow> Inr (str jj, node_type, children))
          = Inr (case x of (j, h) \<Rightarrow> (str j, h, []))"
        by simp
    qed
    from comprehension_map[OF this]
    show "get_sampling_tree limit gs heads n_hops
            = Inr (map (\<lambda>(j, h). (str j, h, [])) (enumerate 0 heads))"
      by (simp add: get_sampling_tree_def)
  qed
  have c6: "(\<forall>t \<in> T. \<exists>et rest. schema gs t = Some (et # rest) \<and> n2 et \<in> T)
          \<and> heads \<noteq> [] \<and> hd heads \<in> T \<longrightarrow>
          get_sampling_tree limit gs heads n_hops = Inl RecursionError"
  proof
    assume a: "(\<forall>t \<in> T. \<exists>et rest. schema gs t = Some (et # rest) \<and> n2 et \<in> T)
          \<and> heads \<noteq> [] \<and> hd heads \<in> T"
    then obtain h hs where hs: "heads = h # hs" and hT: "h \<in> T" by (cases heads) auto
    from a have cyc: "\<forall>t \<in> T. \<exists>et rest. schema gs t = Some (et # rest) \<and> n2 et \<in> T" by blast
    from get_neighbor_types_endless[OF cyc assms hT]
    have "get_neighbor_types limit gs h n_hops (gen_key [] [0] @ ''#'') = Inl RecursionError" .
    with hs show "get_sampling_tree limit gs heads n_hops = Inl RecursionError"
      by (simp add: get_sampling_tree_def)
  qed
  from c1 c2 c3 c4 c5 c6 show ?thesis by blast
qed

text \<open>
  The claim as stated fails on the schema built from the graph without edges: at depth
  \<open>-1\<close> both functions return a normal result.
\<close>

theorem negative_depth_counterexample:
  "(case create_graph_schema example_nodes True of
      Inl e \<Rightarrow> None
    | Inr gs \<Rightarrow> Some (get_type_adjacency_list gs [''Person''] (- 1),
                      get_sampling_tree 1000 gs [''Person''] (- 1)))
   = Some (Inr [(''Person'', [])], Inr [(''0'', ''Person'', [])])"
  by code_simp

theorem negative_depth_not_rejected_witness:
  "get_type_adjacency_list example_schema [''Genre'', ''Person''] (- 2)
     = Inr [(''Genre'', []), (''Person'', [])]
   \<and> get_sampling_tree 5 chain_schema [''A''] (- 3)
     = Inr [(''0'', ''A'', [SamplingNode ''0#0'' (''A'', ''r'', ''B'') []])]
   \<and> get_sampling_tree 5 example_schema [''Genre'', ''Genre''] (- 2)
     = Inr [(''0'', ''Genre'', []), (''1'', ''Genre'', [])]
   \<and> get_sampling_tree 5 example_schema [''Person''] (- 2) = Inl RecursionError"
proof -
  have neg2: "(- 2 :: int) < 0" and neg3: "(- 3 :: int) < 0" by simp_all
  have leaf: "(0 :: nat) < 5 \<and> (\<forall>h \<in> set [''Genre'', ''Genre'']. schema example_schema h = Some [])"
    by (simp add: example_schema_def)
  have strs: "str 0 = ''0''" "str 1 = ''1''" by code_simp+
  have cyc: "(\<forall>t \<in> {''Person'', ''Movie''}.
        \<exists>et rest. schema example_schema t = Some (et # rest) \<and> n2 et \<in> {''Person'', ''Movie''})
      \<and> [''Person''] \<noteq> [] \<and> hd [''Person''] \<in> {''Person'', ''Movie''}"
    by (simp add: example_schema_def n2_def)
  have deep: "get_sampling_tree 5 chain_schema [''A''] 5
     = Inr [(''0'', ''A'', [SamplingNode ''0#0'' (''A'', ''r'', ''B'') []])]"
    by code_simp
  note a = negative_depth_not_rejected [OF neg2, where gs = example_schema
      and heads = "[''Genre'', ''Person'']" and limit = 5 and T = "{}"]
  note b = negative_depth_not_rejected [OF neg3, where gs = chain_schema
      and heads = "[''A'']" and limit = 5 and T = "{}"]
  note c = negative_depth_not_rejected [OF neg2, where gs = example_schema
      and heads = "[''Genre'', ''Genre'']" and limit = 5 and T = "{}"]
  note d = negative_depth_not_rejected [OF neg2, where gs = example_schema
      and heads = "[''Person'']" and limit = 5 and T = "{''Person'', ''Movie''}"]
  from a have r1: "get_type_adjacency_list example_schema [''Genre'', ''Person''] (- 2)
     = Inr [(''Genre'', []), (''Person'', [])]" by simp
  from b deep have r2: "get_sampling_tree 5 chain_schema [''A''] (- 3)
     = Inr [(''0'', ''A'', [SamplingNode ''0#0'' (''A'', ''r'', ''B'') []])]"
    by (metis of_nat_numeral order_refl)
  from c [THEN conjunct2, THEN conjunct2, THEN conjunct2, THEN conjunct2, THEN conjunct1] leaf
  have "get_sampling_tree 5 example_schema [''Genre'', ''Genre''] (- 2)
     = Inr (map (\<lambda>(j, h). (str j, h, [])) (enumerate 0 [''Genre'', ''Genre'']))"
    by (rule mp)
  with strs have r3: "get_sampling_tree 5 example_schema [''Genre'', ''Genre''] (- 2)
     = Inr [(''0'', ''Genre'', []), (''1'', ''Genre'', [])]"
    by simp
  from d [THEN conjunct2, THEN conjunct2, THEN conjunct2, THEN conjunct2, THEN conjunct2] cyc
  have r4: "get_sampling_tree 5 example_schema [''Person''] (- 2) = Inl RecursionError"
    by (rule mp)
  from r1 r2 r3 r4 show ?thesis by blast
qed

end
